theory Spec2Isabelle
  imports Main "HOL-Library.Word" "HOL-Library.Char_ord" "HOL-Library.List_Lexorder"
begin

section \<open>Netlink attributes as the response interpreters see them\<close>

text \<open>
  A nested attribute carries its type tag and a payload. Only the tags that
  \<open>ktf_int.cpp\<close> switches on are told apart; every other tag of the protocol
  header is \<open>KTF_A_OTHER\<close> with its number. \<open>nla_get_string\<close> returns the
  address of the payload, which is never null, so the two null guards of
  \<open>parse_result\<close> have no branch here.
\<close>

datatype nlattr =
    KTF_A_HID "32 word"
  | KTF_A_STR string
  | KTF_A_NUM "32 word"
  | KTF_A_STAT "32 word"
  | KTF_A_FILE string
  | KTF_A_LIST "nlattr list"
  | KTF_A_TEST "nlattr list"
  | KTF_A_OTHER nat

text \<open>The top-level attribute array \<open>attrs[]\<close> after \<open>genlmsg_parse\<close>:
  an absent attribute is a null pointer.\<close>

record ktf_attrs =
  a_VERSION :: "64 word option"
  a_HLIST :: "nlattr list option"
  a_NUM :: "32 word option"
  a_LIST :: "nlattr list option"
  a_STAT :: "32 word option"

datatype nl_cb_action = NL_OK | NL_SKIP | NL_STOP


section \<open>Ordered maps\<close>

text \<open>
  A \<open>std::map\<close> is a list of entries kept in ascending key order, which is the order
  its iterators walk. \<open>map_of\<close> is \<open>find\<close>, \<open>om_put\<close> stores a value under a
  key, \<open>om_erase\<close> removes a key, and \<open>om_index\<close> is \<open>operator[]\<close>: a key
  that is absent is inserted with the default value before its value is returned.
  \<open>std::string\<close> compares bytewise, as the lexicographic order on \<open>string\<close> does.
\<close>

fun om_put :: "'k::linorder \<Rightarrow> 'v \<Rightarrow> ('k \<times> 'v) list \<Rightarrow> ('k \<times> 'v) list" where
  "om_put k v [] = [(k, v)]"
| "om_put k v ((k', v') # m) =
     (if k < k' then (k, v) # (k', v') # m
      else if k = k' then (k, v) # m
      else (k', v') # om_put k v m)"

definition om_erase :: "'k \<Rightarrow> ('k \<times> 'v) list \<Rightarrow> ('k \<times> 'v) list" where
  "om_erase k m = filter (\<lambda>e. fst e \<noteq> k) m"

definition om_index :: "'k::linorder \<Rightarrow> 'v \<Rightarrow> ('k \<times> 'v) list \<Rightarrow> 'v \<times> ('k \<times> 'v) list" where
  "om_index k d m = (case map_of m k of Some v \<Rightarrow> (v, m) | None \<Rightarrow> (d, om_put k d m))"

section \<open>The registry\<close>

text \<open>
  The manager \<open>KernelTestMgr\<close> with its sets, tests and contexts. Of the \<open>log\<close> and
  \<open>fprintf\<close> calls of the source, the model keeps the lines a statement below is
  about: the skip note of \<open>get_test_names\<close> and the diagnostics of \<open>parse_query\<close>.

  A \<open>test_cb\<close> object is known by its address; a pointer is an option, \<open>None\<close> the
  null pointer. A \<open>KernelTest\<close> is referenced from one place only, the \<open>tests\<close>
  map of its set, so the map holds the object itself, and a null pointer stored in
  the map is the value \<open>None\<close> under a present key. The class \<open>KernelTest\<close> is
  declared in \<open>ktf_int.h\<close>; its fields are those the constructor initialises, the two
  numbers with the types of the values assigned to them.
\<close>

type_synonym test_cb = nat

record KernelTest =
  kt_setname :: string
  kt_testname :: string
  kt_name :: string
  kt_setnum :: "32 word"
  kt_testnum :: nat
  user_priv :: "8 word list option"
  user_priv_sz :: nat
  user_test :: "test_cb option"
  kt_file :: "string option"
  kt_line :: int

record testset =
  tests :: "(string \<times> KernelTest option) list"
  test_names :: "string list"
  wrapper :: "(string \<times> test_cb option) list"
  setnum :: "32 word"

definition testset_new :: testset where
  "testset_new = \<lparr>tests = [], test_names = [], wrapper = [], setnum = 0\<rparr>"

record ConfigurableContext =
  cc_name :: string
  cc_handle_id :: "32 word"
  cc_type_id :: "32 word"
  cc_cfg_stat :: "32 word"

text \<open>An iterator of \<open>setmap\<close> is the key of the node it points to, or \<open>end()\<close>;
  nodes of \<open>sets\<close> are never erased, so an iterator stays valid.\<close>

datatype set_iter = It_at string | It_end

record name_iter =
  iter_it :: set_iter
  iter_setname :: string

record KernelTestMgr =
  sets :: "(string \<times> testset) list"
  mgr_test_names :: "string list"
  set_names :: "string list"
  kernelsets :: "string set"
  handle_to_ctxvec :: "(32 word \<times> string list) list"
  cfg_contexts :: "(string \<times> ConfigurableContext list) list"
  next_set :: "32 word"
  cur :: "name_iter option"

definition kmgr_new :: KernelTestMgr where
  "kmgr_new = \<lparr>sets = [], mgr_test_names = [], set_names = [], kernelsets = {},
     handle_to_ctxvec = [], cfg_contexts = [], next_set = 0, cur = None\<rparr>"

definition find_contexts :: "string \<Rightarrow> KernelTestMgr \<Rightarrow> ConfigurableContext list" where
  "find_contexts ctx m = (case map_of (cfg_contexts m) ctx of None \<Rightarrow> [] | Some v \<Rightarrow> v)"

text \<open>\<open>find_add_set\<close> returns a reference to \<open>sets[setname]\<close>; the model returns
  the manager, and the caller reads the set with \<open>the_set\<close>.\<close>

definition find_add_set :: "string \<Rightarrow> KernelTestMgr \<Rightarrow> KernelTestMgr" where
  "find_add_set setname m =
     (let new_set = (setname \<notin> kernelsets m);
          m1 = (if new_set
                then m\<lparr>kernelsets := insert setname (kernelsets m),
                       set_names := set_names m @ [setname]\<rparr>
                else m);
          (ts, sets1) = om_index setname testset_new (sets m1);
          m2 = m1\<lparr>sets := sets1\<rparr>
      in if new_set
         then m2\<lparr>sets := om_put setname (ts\<lparr>setnum := next_set m2\<rparr>) sets1,
                 next_set := next_set m2 + 1\<rparr>
         else m2)"

definition the_set :: "string \<Rightarrow> KernelTestMgr \<Rightarrow> testset" where
  "the_set setname m = (case map_of (sets m) setname of Some ts \<Rightarrow> ts | None \<Rightarrow> testset_new)"

definition find_add_test :: "string \<Rightarrow> string \<Rightarrow> KernelTestMgr \<Rightarrow> KernelTestMgr" where
  "find_add_test setname testname m =
     (let m1 = find_add_set setname m
      in m1\<lparr>mgr_test_names := mgr_test_names m1 @ [testname]\<rparr>)"

definition get_contexts :: "32 word \<Rightarrow> KernelTestMgr \<Rightarrow> string list \<times> KernelTestMgr" where
  "get_contexts hid m =
     (let (v, h1) = om_index hid [] (handle_to_ctxvec m) in (v, m\<lparr>handle_to_ctxvec := h1\<rparr>))"

definition add_cset :: "32 word \<Rightarrow> string list \<Rightarrow> KernelTestMgr \<Rightarrow> KernelTestMgr" where
  "add_cset hid ctxs m = m\<lparr>handle_to_ctxvec := om_put hid ctxs (handle_to_ctxvec m)\<rparr>"

definition add_configurable_context ::
  "string \<Rightarrow> 32 word \<Rightarrow> 32 word \<Rightarrow> 32 word \<Rightarrow> KernelTestMgr \<Rightarrow> KernelTestMgr" where
  "add_configurable_context ctx type_id hid cfg_stat m =
     (let (v, c1) = om_index ctx [] (cfg_contexts m)
      in m\<lparr>cfg_contexts := om_put ctx
           (v @ [\<lparr>cc_name = ctx, cc_handle_id = hid, cc_type_id = type_id, cc_cfg_stat = cfg_stat\<rparr>]) c1\<rparr>)"

subsection \<open>The constructor of KernelTest, which is add\_test\<close>

text \<open>
  The constructor stores \<open>this\<close> in the set's map before it fills in \<open>testnum\<close> and
  \<open>user_test\<close>; the model stores the object once more when both are known.
\<close>

definition KernelTest_init :: "string \<Rightarrow> string \<Rightarrow> KernelTest" where
  "KernelTest_init sn tn =
     \<lparr>kt_setname = sn, kt_testname = tn, kt_name = sn @ ''.'' @ tn, kt_setnum = 0,
      kt_testnum = 0, user_priv = None, user_priv_sz = 0, user_test = None,
      kt_file = None, kt_line = - 1\<rparr>"

definition add_test :: "string \<Rightarrow> string \<Rightarrow> 32 word \<Rightarrow> KernelTestMgr \<Rightarrow> KernelTestMgr" where
  "add_test setname testname handle_id m =
     (let m1 = find_add_test setname testname m;
          ts = the_set setname m1;
          kt = (KernelTest_init setname testname)\<lparr>kt_setnum := setnum ts\<rparr>;
          tests1 = om_put testname (Some kt) (tests ts);
          (new_names, m2) =
             (if handle_id = 0 then ([testname], m1)
              else (let (ctxv, m') = get_contexts handle_id m1
                    in (map (\<lambda>c. testname @ ''_'' @ c) ctxv, m')));
          kt1 = kt\<lparr>kt_testnum := length tests1\<rparr>;
          (kt2, wrapper1) =
             (case map_of (wrapper ts) testname of
                Some tcb \<Rightarrow> (kt1\<lparr>user_test := tcb\<rparr>, om_erase testname (wrapper ts))
              | None \<Rightarrow> (kt1, wrapper ts))
      in m2\<lparr>sets := om_put setname
                (ts\<lparr>tests := om_put testname (Some kt2) tests1,
                    test_names := test_names ts @ new_names,
                    wrapper := wrapper1\<rparr>)
                (sets m2)\<rparr>)"

subsection \<open>add\_wrapper\<close>

definition add_wrapper :: "string \<Rightarrow> string \<Rightarrow> test_cb option \<Rightarrow> KernelTestMgr \<Rightarrow> KernelTestMgr" where
  "add_wrapper setname testname tcb m =
     (let (ts, sets1) = om_index setname testset_new (sets m);
          (kt, tests1) = om_index testname None (tests ts)
      in case kt of
           Some k \<Rightarrow>
             m\<lparr>sets := om_put setname
                  (ts\<lparr>tests := om_put testname (Some (k\<lparr>user_test := tcb\<rparr>)) tests1\<rparr>) sets1\<rparr>
         | None \<Rightarrow>
             m\<lparr>sets := om_put setname
                  (ts\<lparr>tests := tests1, wrapper := om_put testname tcb (wrapper ts)\<rparr>) sets1\<rparr>)"

subsection \<open>find\_test\<close>

text \<open>
  \<open>size_t\<close> is a 64-bit word and \<open>npos\<close> its largest value. \<open>substr\<close> throws
  only for a start beyond the end of the string, which \<open>find_test\<close> never passes
  (lemma \<open>find_last_of_range\<close>): a position it uses comes from \<open>find_last_of\<close>,
  and \<open>npos + 1\<close> wraps around to 0.
\<close>

definition npos :: "64 word" where
  "npos = - 1"

definition substr :: "string \<Rightarrow> 64 word \<Rightarrow> 64 word \<Rightarrow> string" where
  "substr s pos n = take (unat n) (drop (unat pos) s)"

fun last_index :: "'a list \<Rightarrow> 'a \<Rightarrow> nat option" where
  "last_index [] c = None"
| "last_index (x # xs) c =
     (case last_index xs c of
        Some i \<Rightarrow> Some (Suc i)
      | None \<Rightarrow> if x = c then Some 0 else None)"

definition find_last_of :: "string \<Rightarrow> char \<Rightarrow> 64 word" where
  "find_last_of s c = (case last_index s c of Some i \<Rightarrow> of_nat i | None \<Rightarrow> npos)"

text \<open>The expression \<open>sets[setname].tests[tname]\<close>: both maps grow by a default
  entry when the key is absent.\<close>

definition sets_tests_index :: "string \<Rightarrow> string \<Rightarrow> KernelTestMgr \<Rightarrow> KernelTest option \<times> KernelTestMgr" where
  "sets_tests_index setname tname m =
     (let (ts, sets1) = om_index setname testset_new (sets m);
          (kt, tests1) = om_index tname None (tests ts)
      in (kt, m\<lparr>sets := om_put setname (ts\<lparr>tests := tests1\<rparr>) sets1\<rparr>))"

text \<open>
  The \<open>while (pos >= 0)\<close> loop. The result is the returned pointer, the string left
  in \<open>*pctx\<close> and the manager; \<open>None\<close> is a loop that does not return.
\<close>

partial_function (option) find_test_loop ::
  "string \<Rightarrow> string \<Rightarrow> 64 word \<Rightarrow> string \<Rightarrow> KernelTestMgr
     \<Rightarrow> (KernelTest option \<times> string \<times> KernelTestMgr) option" where
  "find_test_loop setname testname pos pctx m =
     (if 0 \<le> pos then
        (let tname = substr testname 0 pos;
             ctx = substr testname (pos + 1) npos;
             (kt, m1) = sets_tests_index setname tname m
         in case kt of
              Some k \<Rightarrow> Some (Some k, ctx, m1)
            | None \<Rightarrow> find_test_loop setname testname (find_last_of tname (CHR ''_'')) ctx m1)
      else Some (None, pctx, m))"

definition find_test ::
  "string \<Rightarrow> string \<Rightarrow> string \<Rightarrow> KernelTestMgr \<Rightarrow> (KernelTest option \<times> string \<times> KernelTestMgr) option" where
  "find_test setname testname pctx m =
     (let (kt, m1) = sets_tests_index setname testname m
      in case kt of
           Some k \<Rightarrow> Some (Some k, [], m1)
         | None \<Rightarrow>
             if handle_to_ctxvec m1 = [] then Some (None, pctx, m1)
             else find_test_loop setname testname (find_last_of testname (CHR ''_'')) pctx m1)"

subsection \<open>get\_test\_names\<close>

text \<open>
  The nodes from an iterator's node to the end of the map, and what \<open>*it\<close> reads.
  The source tests \<open>cur->it->second.wrapper.size() != 0\<close> before
  \<open>cur->it != sets.end()\<close>, so at \<open>end()\<close> it reads whatever lies behind the
  map's header node: \<open>past_end\<close>, a parameter. The second conjunct is false there.
\<close>

definition it_begin :: "(string \<times> testset) list \<Rightarrow> set_iter" where
  "it_begin es = (case es of [] \<Rightarrow> It_end | e # _ \<Rightarrow> It_at (fst e))"

definition it_rest :: "(string \<times> testset) list \<Rightarrow> set_iter \<Rightarrow> (string \<times> testset) list" where
  "it_rest ss it = (case it of It_end \<Rightarrow> [] | It_at k \<Rightarrow> dropWhile (\<lambda>e. fst e < k) ss)"

definition it_deref :: "string \<times> testset \<Rightarrow> (string \<times> testset) list \<Rightarrow> string \<times> testset" where
  "it_deref past_end es = (case es of [] \<Rightarrow> past_end | e # _ \<Rightarrow> e)"

text \<open>The filter loop; it returns the names of the suites it logged as skipped and
  the nodes from the iterator it stopped at.\<close>

function skip_combined ::
  "string \<times> testset \<Rightarrow> (string \<times> testset) list \<Rightarrow> string list \<times> (string \<times> testset) list" where
  "skip_combined past_end es =
     (if wrapper (snd (it_deref past_end es)) \<noteq> [] \<and> es \<noteq> [] then
        (let note = (if test_names (snd (it_deref past_end es)) = []
                     then [fst (it_deref past_end es)] else []);
             (notes, es') = skip_combined past_end (tl es)
         in (note @ notes, es'))
      else ([], es))"
  by pat_completeness auto
termination
  by (relation "measure (\<lambda>(p, es). length es)") auto

declare skip_combined.simps [simp del]

text \<open>\<open>get_test_names\<close> returns the name list and the suites logged as skipped.\<close>

definition get_test_names ::
  "string \<times> testset \<Rightarrow> KernelTestMgr \<Rightarrow> (string list \<times> string list) \<times> KernelTestMgr" where
  "get_test_names past_end m =
     (let c = (case cur m of
                 None \<Rightarrow> \<lparr>iter_it = it_begin (sets m), iter_setname = []\<rparr>
               | Some c \<Rightarrow> c);
          (notes, es) = skip_combined past_end (it_rest (sets m) (iter_it c))
      in case es of
           [] \<Rightarrow> (([], notes), m\<lparr>cur := None\<rparr>)
         | e # es' \<Rightarrow>
             ((test_names (snd e), notes),
              m\<lparr>cur := Some \<lparr>iter_it = it_begin es', iter_setname = fst e\<rparr>\<rparr>))"

definition get_current_setname :: "KernelTestMgr \<Rightarrow> string option" where
  "get_current_setname m = map_option iter_setname (cur m)"


section \<open>parse\_query\<close>

text \<open>
  Modelled from the spec: the version macros \<open>KTF_VERSION\<close> and
  \<open>KTF_VERSION_SET\<close> of \<open>kernel/ktf_unlproto.h\<close>, which is not among the
  sources. The spec has a version as "four-field value (major, minor, micro, build)
  packed into a single 64-bit integer with fixed bit-field widths per component"; the
  fields here are 16 bits each, major in the highest. The local version
  \<open>KTF_VERSION_LATEST\<close> comes from the same header and is a parameter,
  \<open>latest\<close>, of \<open>parse_query\<close>.
\<close>

datatype vfield = MAJOR | MINOR | MICRO | BUILD

fun KTF_VSHIFT :: "vfield \<Rightarrow> nat" where
  "KTF_VSHIFT BUILD = 0"
| "KTF_VSHIFT MICRO = 16"
| "KTF_VSHIFT MINOR = 32"
| "KTF_VSHIFT MAJOR = 48"

definition KTF_VERSION :: "vfield \<Rightarrow> 64 word \<Rightarrow> 64 word" where
  "KTF_VERSION f v = drop_bit (KTF_VSHIFT f) (and v (push_bit (KTF_VSHIFT f) 0xffff))"

definition KTF_VERSION_SET :: "vfield \<Rightarrow> 64 word \<Rightarrow> 64 word" where
  "KTF_VERSION_SET f v = push_bit (KTF_VSHIFT f) (and v 0xffff)"

definition version_of :: "64 word \<Rightarrow> 64 word \<Rightarrow> 64 word \<Rightarrow> 64 word \<Rightarrow> 64 word" where
  "version_of major minor micro build =
     or (or (KTF_VERSION_SET MAJOR major) (KTF_VERSION_SET MINOR minor))
        (or (KTF_VERSION_SET MICRO micro) (KTF_VERSION_SET BUILD build))"

text \<open>What \<open>parse_query\<close> writes to \<open>stderr\<close>: the version line with its note
  and the two versions, and the two complaints about the message.\<close>

datatype diag =
    Version_note "64 word" "64 word"
  | Version_error "64 word" "64 word"
  | Unexpected_attr
  | No_set_count

text \<open>\<open>parse_query\<close> returns an \<open>int\<close>: a callback action or \<open>-1\<close>.\<close>

datatype query_ret = Ret nl_cb_action | Ret_minus_one

text \<open>The inner loop over a handle's \<open>KTF_A_LIST\<close>; its \<open>switch\<close> has no default
  case. The state is \<open>ctx\<close>, \<open>contexts\<close>, \<open>type_id\<close> and the manager.\<close>

fun parse_ctx_list ::
  "nlattr list \<Rightarrow> 32 word \<Rightarrow> string \<times> string list \<times> 32 word \<times> KernelTestMgr
     \<Rightarrow> string \<times> string list \<times> 32 word \<times> KernelTestMgr" where
  "parse_ctx_list [] hid st = st"
| "parse_ctx_list (KTF_A_STR s # rest) hid (ctx, contexts, type_id, m) =
     parse_ctx_list rest hid (s, contexts @ [s], type_id, m)"
| "parse_ctx_list (KTF_A_NUM n # rest) hid (ctx, contexts, type_id, m) =
     parse_ctx_list rest hid (ctx, contexts, n, m)"
| "parse_ctx_list (KTF_A_STAT cfg_stat # rest) hid (ctx, contexts, type_id, m) =
     parse_ctx_list rest hid
       (ctx, contexts, type_id, add_configurable_context ctx type_id hid cfg_stat m)"
| "parse_ctx_list (_ # rest) hid st = parse_ctx_list rest hid st"

text \<open>The loop over \<open>KTF_A_HLIST\<close>; the state is \<open>handle_id\<close>, \<open>type_id\<close>,
  \<open>ctx\<close> and the manager.\<close>

fun parse_hlist ::
  "nlattr list \<Rightarrow> 32 word \<times> 32 word \<times> string \<times> KernelTestMgr
     \<Rightarrow> nl_cb_action \<times> 32 word \<times> 32 word \<times> string \<times> KernelTestMgr" where
  "parse_hlist [] st = (NL_OK, st)"
| "parse_hlist (KTF_A_HID h # rest) (handle_id, type_id, ctx, m) =
     parse_hlist rest (h, type_id, ctx, m)"
| "parse_hlist (KTF_A_LIST l # rest) (handle_id, type_id, ctx, m) =
     (case parse_ctx_list l handle_id (ctx, [], type_id, m) of
        (ctx', contexts, type_id', m') \<Rightarrow>
          parse_hlist rest (0, type_id', ctx', add_cset handle_id contexts m'))"
| "parse_hlist (_ # rest) st = (NL_SKIP, st)"

fun parse_one_set ::
  "string \<Rightarrow> nlattr list \<Rightarrow> 32 word \<Rightarrow> KernelTestMgr \<Rightarrow> nl_cb_action \<times> KernelTestMgr" where
  "parse_one_set setname [] handle_id m = (NL_OK, m)"
| "parse_one_set setname (KTF_A_HID h # rest) handle_id m = parse_one_set setname rest h m"
| "parse_one_set setname (KTF_A_STR msg # rest) handle_id m =
     parse_one_set setname rest 0 (add_test setname msg handle_id m)"
| "parse_one_set setname (_ # rest) handle_id m = (NL_SKIP, m)"

text \<open>The loop over the top-level \<open>KTF_A_LIST\<close> of test sets.\<close>

fun parse_set_list ::
  "nlattr list \<Rightarrow> string \<Rightarrow> KernelTestMgr \<Rightarrow> nl_cb_action \<times> KernelTestMgr" where
  "parse_set_list [] setname m = (NL_OK, m)"
| "parse_set_list (KTF_A_STR s # rest) setname m = parse_set_list rest s (find_add_set s m)"
| "parse_set_list (KTF_A_TEST l # rest) setname m =
     (case parse_one_set setname l 0 m of
        (NL_OK, m') \<Rightarrow> parse_set_list rest setname (find_add_set setname m')
      | (stat, m') \<Rightarrow> (stat, m'))"
| "parse_set_list (_ # rest) setname m = (NL_SKIP, m)"

text \<open>\<open>parse_query\<close> behind its version check: the handle list, the set count and
  the set list.\<close>

definition parse_query_inventory :: "ktf_attrs \<Rightarrow> KernelTestMgr \<Rightarrow> query_ret \<times> diag list \<times> KernelTestMgr" where
  "parse_query_inventory attrs m =
     (case (case a_HLIST attrs of
              None \<Rightarrow> (NL_OK, m)
            | Some hl \<Rightarrow> (case parse_hlist hl (0, 0, [], m) of (stat, h, t, c, m') \<Rightarrow> (stat, m'))) of
        (NL_OK, m1) \<Rightarrow>
          (case a_NUM attrs of
             None \<Rightarrow> (Ret_minus_one, [No_set_count], m1)
           | Some alloc \<Rightarrow>
               (case a_LIST attrs of
                  None \<Rightarrow> (Ret NL_OK, [], m1)
                | Some l \<Rightarrow>
                    (case parse_set_list l [] m1 of
                       (NL_OK, m2) \<Rightarrow> (Ret NL_OK, [], m2)
                     | (stat, m2) \<Rightarrow> (Ret stat, [Unexpected_attr], m2))))
      | (stat, m1) \<Rightarrow> (Ret stat, [Unexpected_attr], m1))"

definition parse_query :: "64 word \<Rightarrow> ktf_attrs \<Rightarrow> KernelTestMgr \<Rightarrow> query_ret \<times> diag list \<times> KernelTestMgr" where
  "parse_query latest attrs m =
     (let kernel_version =
            (case a_VERSION attrs of
               Some v \<Rightarrow> v
             | None \<Rightarrow> or (KTF_VERSION_SET MAJOR 0) (KTF_VERSION_SET MINOR 1))
      in if kernel_version \<noteq> latest then
           (let is_compatible =
                  (KTF_VERSION MAJOR latest = KTF_VERSION MAJOR kernel_version \<and>
                   KTF_VERSION MINOR latest = KTF_VERSION MINOR kernel_version)
            in if \<not> is_compatible then (Ret NL_SKIP, [Version_error latest kernel_version], m)
               else (case parse_query_inventory attrs m of
                       (r, d, m') \<Rightarrow> (r, Version_note latest kernel_version # d, m')))
         else parse_query_inventory attrs m)"

definition query_response :: "64 word option \<Rightarrow> nlattr list \<Rightarrow> nlattr list \<Rightarrow> ktf_attrs" where
  "query_response v hl l =
     \<lparr>a_VERSION = v, a_HLIST = Some hl, a_NUM = Some 1, a_LIST = Some l, a_STAT = None\<rparr>"

section \<open>parse\_result\<close>

text \<open>
  One call of the installed handler \<open>handle_test(result, file, line, report)\<close>.
  The C++ \<open>int\<close> variables are 32-bit words read in two's complement
  (\<open>sint\<close>); \<open>nla_get_u32\<close> stores its unsigned value into them unchanged.
\<close>

type_synonym handler_call = "32 word \<times> string \<times> 32 word \<times> string"

record result_state =
  assert_cnt :: "32 word"
  fail_cnt :: "32 word"
  file_name :: string
  report :: string
  result :: "32 word"
  line_no :: "32 word"
  calls :: "handler_call list"

definition handle_test :: "result_state \<Rightarrow> result_state" where
  "handle_test st = st\<lparr>calls := calls st @ [(result st, file_name st, line_no st, report st)]\<rparr>"

definition count_check :: "32 word \<Rightarrow> result_state \<Rightarrow> result_state" where
  "count_check v st =
     (if v \<noteq> 0 then st\<lparr>assert_cnt := assert_cnt st + v\<rparr>
      else st\<lparr>fail_cnt := fail_cnt st + 1, assert_cnt := assert_cnt st + 1\<rparr>)"

text \<open>The body of \<open>nla_for_each_nested\<close> in \<open>parse_result\<close>; the default
  case returns \<open>NL_SKIP\<close> from the whole function.\<close>

fun parse_result_loop :: "nlattr list \<Rightarrow> result_state \<Rightarrow> nl_cb_action \<times> result_state" where
  "parse_result_loop [] st = (NL_OK, st)"
| "parse_result_loop (KTF_A_STAT v # rest) st =
     parse_result_loop rest (count_check v ((handle_test st)\<lparr>result := v\<rparr>))"
| "parse_result_loop (KTF_A_FILE f # rest) st = parse_result_loop rest (st\<lparr>file_name := f\<rparr>)"
| "parse_result_loop (KTF_A_NUM n # rest) st = parse_result_loop rest (st\<lparr>line_no := n\<rparr>)"
| "parse_result_loop (KTF_A_STR s # rest) st = parse_result_loop rest (st\<lparr>report := s\<rparr>)"
| "parse_result_loop (_ # rest) st = (NL_SKIP, st)"

definition result_init :: result_state where
  "result_init = \<lparr>assert_cnt = 0, fail_cnt = 0, file_name = ''no_file'', report = ''no_report'',
     result = - 1, line_no = 0, calls = []\<rparr>"

text \<open>\<open>parse_result\<close> returns the callback action; the handler calls it made and
  the two local counters at the moment of return are kept in the state beside it. The
  top-level status attribute only produces a log line and is not read here.\<close>

definition parse_result :: "ktf_attrs \<Rightarrow> nl_cb_action \<times> result_state" where
  "parse_result attrs =
     (case a_LIST attrs of
        None \<Rightarrow> (NL_OK, result_init)
      | Some l \<Rightarrow>
          (case parse_result_loop l result_init of
             (NL_OK, st) \<Rightarrow> (NL_OK, handle_test st)
           | (act, st) \<Rightarrow> (act, st)))"


subsection \<open>Reading a check list\<close>

text \<open>The status values that \<open>parse_result\<close> reaches: those in front of the
  first attribute of an unexpected type.\<close>

fun statuses_seen :: "nlattr list \<Rightarrow> 32 word list" where
  "statuses_seen [] = []"
| "statuses_seen (KTF_A_STAT v # rest) = v # statuses_seen rest"
| "statuses_seen (KTF_A_FILE f # rest) = statuses_seen rest"
| "statuses_seen (KTF_A_NUM n # rest) = statuses_seen rest"
| "statuses_seen (KTF_A_STR s # rest) = statuses_seen rest"
| "statuses_seen (_ # rest) = []"

fun expected_attr :: "nlattr \<Rightarrow> bool" where
  "expected_attr (KTF_A_STAT v) = True"
| "expected_attr (KTF_A_FILE f) = True"
| "expected_attr (KTF_A_NUM n) = True"
| "expected_attr (KTF_A_STR s) = True"
| "expected_attr _ = False"

text \<open>What one status adds to the assertion counter.\<close>

definition assert_add :: "32 word \<Rightarrow> 32 word" where
  "assert_add v = (if v = 0 then 1 else v)"

definition run_response :: "nlattr list \<Rightarrow> ktf_attrs" where
  "run_response l = \<lparr>a_VERSION = None, a_HLIST = None, a_NUM = None, a_LIST = Some l, a_STAT = None\<rparr>"

fun is_status :: "nlattr \<Rightarrow> bool" where
  "is_status (KTF_A_STAT v) = True"
| "is_status _ = False"

section \<open>Notions the statements use\<close>

text \<open>The context list a handle owns, the kernel test a set holds under a name, and
  the manager after the expression \<open>sets[setname].tests[tname]\<close>.\<close>

definition contexts_of :: "32 word \<Rightarrow> KernelTestMgr \<Rightarrow> string list" where
  "contexts_of hid m = (case map_of (handle_to_ctxvec m) hid of Some v \<Rightarrow> v | None \<Rightarrow> [])"

definition lookup_test :: "string \<Rightarrow> string \<Rightarrow> KernelTestMgr \<Rightarrow> KernelTest option" where
  "lookup_test s x m = (case map_of (tests (the_set s m)) x of Some (Some k) \<Rightarrow> Some k | _ \<Rightarrow> None)"

definition touch_test :: "string \<Rightarrow> string \<Rightarrow> KernelTestMgr \<Rightarrow> KernelTestMgr" where
  "touch_test s x m = snd (sets_tests_index s x m)"

text \<open>The object that the constructor of \<open>KernelTest\<close> leaves in the map.\<close>

definition new_test :: "string \<Rightarrow> string \<Rightarrow> KernelTestMgr \<Rightarrow> KernelTest" where
  "new_test s t m =
     (KernelTest_init s t)
       \<lparr>kt_setnum := setnum (the_set s (find_add_set s m)),
        kt_testnum := length (om_put t None (tests (the_set s m))),
        user_test := (case map_of (wrapper (the_set s m)) t of Some tcb \<Rightarrow> tcb | None \<Rightarrow> None)\<rparr>"

text \<open>
  Name resolution in the spec's words, rightmost underscore first: among the first
  \<open>n\<close> characters of \<open>t\<close>, the rightmost underscore whose prefix \<open>look\<close> knows
  gives the test, and the context is all of \<open>t\<close> behind that underscore.
\<close>

fun resolve_at :: "string \<Rightarrow> nat \<Rightarrow> (string \<Rightarrow> 'a option) \<Rightarrow> ('a \<times> string) option" where
  "resolve_at t 0 look = None"
| "resolve_at t (Suc i) look =
     (if t ! i = CHR ''_''
      then (case look (take i t) of
              Some k \<Rightarrow> Some (k, drop (Suc i) t)
            | None \<Rightarrow> resolve_at t i look)
      else resolve_at t i look)"

text \<open>What a caller sees of \<open>find_test\<close>: the pointer returned and the context.\<close>

definition found :: "KernelTest option \<times> string \<times> KernelTestMgr \<Rightarrow> KernelTest option \<times> string" where
  "found r = (fst r, fst (snd r))"

text \<open>The registry of the spec's example: handle 5 owns the contexts \<open>ctxA\<close> and
  \<open>ctxB\<close>, and the kernel names the test \<open>ping\<close> of the set \<open>set\<close> under
  handle 5.\<close>

definition ping_registry :: KernelTestMgr where
  "ping_registry = add_test ''set'' ''ping'' 5 (add_cset 5 [''ctxA'', ''ctxB''] kmgr_new)"

definition ping_test :: KernelTest where
  "ping_test = (KernelTest_init ''set'' ''ping'')\<lparr>kt_testnum := 1\<rparr>"

section \<open>Registries that the operations build\<close>

text \<open>One operation on the manager, and the managers that sequences of operations build
  from the empty one. \<open>find_test\<close> is a step when it returns.\<close>

inductive step :: "KernelTestMgr \<Rightarrow> KernelTestMgr \<Rightarrow> bool" where
  step_find_add_set: "step m (find_add_set s m)"
| step_find_add_test: "step m (find_add_test s t m)"
| step_add_test: "step m (add_test s t hid m)"
| step_add_wrapper: "step m (add_wrapper s t cb m)"
| step_add_cset: "step m (add_cset hid ctxs m)"
| step_add_configurable_context: "step m (add_configurable_context ctx type_id hid cfg_stat m)"
| step_find_test: "find_test s t pctx m = Some (k, c, m') \<Longrightarrow> step m m'"
| step_get_test_names: "step m (snd (get_test_names past_end m))"

inductive reachable :: "KernelTestMgr \<Rightarrow> bool" where
  reachable_new: "reachable kmgr_new"
| reachable_step: "reachable m \<Longrightarrow> step m m' \<Longrightarrow> reachable m'"

text \<open>
  The ordinals of a manager are in order when the sets that \<open>find_add_set\<close> has
  registered are those of \<open>set_names\<close>, each once and each with its position in
  \<open>set_names\<close> as its \<open>setnum\<close>, \<open>next_set\<close> is their number, every other set
  has the \<open>setnum\<close> 0 of a new \<open>testset\<close>, and no name occurs twice in \<open>sets\<close>.
  The counter is a C++ \<open>int\<close>; it is a 32-bit word here, and positions are compared
  as such.
\<close>

definition ordinals_ok :: "KernelTestMgr \<Rightarrow> bool" where
  "ordinals_ok m \<longleftrightarrow>
     distinct (set_names m) \<and> kernelsets m = set (set_names m)
     \<and> next_set m = of_nat (length (set_names m))
     \<and> (\<forall>i < length (set_names m). setnum (the_set (set_names m ! i) m) = of_nat i)
     \<and> (\<forall>s. s \<notin> kernelsets m \<longrightarrow> setnum (the_set s m) = 0)
     \<and> sorted_wrt (<) (map fst (sets m))"

section \<open>Enumerating all names\<close>

text \<open>
  The harness calls \<open>get_test_names\<close> until the cursor is deleted, at most \<open>n\<close>
  times, and notes \<open>get_current_setname\<close> beside each list it is given. The result
  is these pairs, the suites logged as skipped, and the manager.
\<close>

fun drain_names ::
  "nat \<Rightarrow> string \<times> testset \<Rightarrow> KernelTestMgr
     \<Rightarrow> (string \<times> string list) list \<times> string list \<times> KernelTestMgr" where
  "drain_names 0 past_end m = ([], [], m)"
| "drain_names (Suc n) past_end m =
     (case get_test_names past_end m of
        ((v, notes), m') \<Rightarrow>
          (case cur m' of
             None \<Rightarrow> ([], notes, m')
           | Some c \<Rightarrow>
               (case drain_names n past_end m' of
                  (vs, ns, m'') \<Rightarrow> ((iter_setname c, v) # vs, notes @ ns, m''))))"

text \<open>The nodes that are still in front of the cursor.\<close>

definition pending :: "KernelTestMgr \<Rightarrow> (string \<times> testset) list" where
  "pending m = (case cur m of None \<Rightarrow> sets m | Some c \<Rightarrow> it_rest (sets m) (iter_it c))"

text \<open>What one step does to the ordinals: it leaves them as they are, or it registers
  one new set name under the next ordinal.\<close>

definition same_ordinals :: "KernelTestMgr \<Rightarrow> KernelTestMgr \<Rightarrow> bool" where
  "same_ordinals m m' \<longleftrightarrow>
     set_names m' = set_names m \<and> kernelsets m' = kernelsets m \<and> next_set m' = next_set m
     \<and> (\<forall>s. setnum (the_set s m') = setnum (the_set s m))
     \<and> (sorted_wrt (<) (map fst (sets m)) \<longrightarrow> sorted_wrt (<) (map fst (sets m')))"

definition registers :: "string \<Rightarrow> KernelTestMgr \<Rightarrow> KernelTestMgr \<Rightarrow> bool" where
  "registers s m m' \<longleftrightarrow>
     s \<notin> kernelsets m \<and> set_names m' = set_names m @ [s]
     \<and> kernelsets m' = insert s (kernelsets m) \<and> next_set m' = next_set m + 1
     \<and> (\<forall>s'. setnum (the_set s' m') = (if s' = s then next_set m else setnum (the_set s' m)))
     \<and> (sorted_wrt (<) (map fst (sets m)) \<longrightarrow> sorted_wrt (<) (map fst (sets m')))"

text \<open>The pairs that an enumeration returns and the suites it logs, for the nodes in
  front of the cursor.\<close>

definition returned :: "(string \<times> testset) list \<Rightarrow> (string \<times> string list) list" where
  "returned es = map (\<lambda>e. (fst e, test_names (snd e))) (filter (\<lambda>e. wrapper (snd e) = []) es)"

definition logged :: "(string \<times> testset) list \<Rightarrow> string list" where
  "logged es = map fst (filter (\<lambda>e. wrapper (snd e) \<noteq> [] \<and> test_names (snd e) = []) es)"

section \<open>Example registries\<close>

text \<open>The set \<open>A\<close> is first referred to by a wrapper registration, then the set
  \<open>B\<close> is registered.\<close>

definition wrapper_first_registry :: KernelTestMgr where
  "wrapper_first_registry = find_add_set ''B'' (add_wrapper ''A'' ''t'' (Some 1) kmgr_new)"

text \<open>The kernel names a test of the set \<open>b\<close> and then one of the set \<open>a\<close>.\<close>

definition reversed_registry :: KernelTestMgr where
  "reversed_registry = add_test ''a'' ''t2'' 0 (add_test ''b'' ''t1'' 0 kmgr_new)"

text \<open>A set with the kernel test \<open>a\<close> and a wrapper waiting for a test \<open>b\<close>.\<close>

definition mixed_registry :: KernelTestMgr where
  "mixed_registry = add_wrapper ''s'' ''b'' (Some 1) (add_test ''s'' ''a'' 0 kmgr_new)"

text \<open>A set \<open>e\<close> without tests, as \<open>parse_query\<close> adds it for a set name without
  a test list, and a set \<open>z\<close> with one test.\<close>

definition empty_set_registry :: KernelTestMgr where
  "empty_set_registry = add_test ''z'' ''t'' 0 (find_add_set ''e'' kmgr_new)"

text \<open>Three sets: \<open>k\<close> with a test, \<open>s\<close> with a test and a waiting wrapper,
  \<open>c\<close> with a waiting wrapper only.\<close>

definition enum_registry :: KernelTestMgr where
  "enum_registry = add_wrapper ''c'' ''w'' (Some 2) (add_wrapper ''s'' ''b'' (Some 1)
     (add_test ''s'' ''a'' 0 (add_test ''k'' ''t'' 0 kmgr_new)))"

text \<open>What \<open>*it\<close> reads at \<open>end()\<close> in the examples: a node of an empty set.\<close>

definition no_node :: "string \<times> testset" where
  "no_node = ([], testset_new)"


section \<open>Run accounting\<close>

lemma loop_counters:
  "assert_cnt (snd (parse_result_loop l st))
     = assert_cnt st + sum_list (map assert_add (statuses_seen l))
   \<and> fail_cnt (snd (parse_result_loop l st))
     = fail_cnt st + of_nat (length (filter (\<lambda>v. v = 0) (statuses_seen l)))"
  by (induction l st rule: parse_result_loop.induct)
     (simp_all add: count_check_def handle_test_def assert_add_def)

lemma handle_test_counters [simp]:
  "assert_cnt (handle_test st) = assert_cnt st" "fail_cnt (handle_test st) = fail_cnt st"
  by (simp_all add: handle_test_def)

lemma parse_result_counters:
  "assert_cnt (snd (parse_result (attrs\<lparr>a_LIST := Some l\<rparr>)))
     = sum_list (map assert_add (statuses_seen l))"
  "fail_cnt (snd (parse_result (attrs\<lparr>a_LIST := Some l\<rparr>)))
     = of_nat (length (filter (\<lambda>v. v = 0) (statuses_seen l)))"
  using loop_counters [of l result_init]
  by (auto simp add: parse_result_def result_init_def split: prod.splits nl_cb_action.splits)

text \<open>
  C3, as the code has it: \<open>parse_result\<close> tests \<open>if (result)\<close>, so every status
  that is not zero, also one that is negative as an \<open>int\<close>, adds its value to the
  assertion counter, and only a zero status adds one to the failure counter and one to
  the assertion counter. The statuses 2, 0, 3 give an assertion count of 6 and a failure
  count of 1.
\<close>

theorem parse_result_accounting:
  "assert_cnt (snd (parse_result (attrs\<lparr>a_LIST := Some l\<rparr>)))
     = sum_list (map (\<lambda>v. if v = 0 then 1 else v) (statuses_seen l))
   \<and> fail_cnt (snd (parse_result (attrs\<lparr>a_LIST := Some l\<rparr>)))
     = of_nat (length (filter (\<lambda>v. v = 0) (statuses_seen l)))
   \<and> assert_cnt (snd (parse_result (run_response [KTF_A_STAT 2, KTF_A_STAT 0, KTF_A_STAT 3]))) = 6
   \<and> fail_cnt (snd (parse_result (run_response [KTF_A_STAT 2, KTF_A_STAT 0, KTF_A_STAT 3]))) = 1"
proof -
  have "assert_add = (\<lambda>v. if v = 0 then 1 else v)"
    by (rule ext) (simp add: assert_add_def)
  moreover have "assert_cnt (snd (parse_result (run_response [KTF_A_STAT 2, KTF_A_STAT 0, KTF_A_STAT 3]))) = 6"
    by (simp add: parse_result_def run_response_def result_init_def count_check_def handle_test_def)
  moreover have "fail_cnt (snd (parse_result (run_response [KTF_A_STAT 2, KTF_A_STAT 0, KTF_A_STAT 3]))) = 1"
    by (simp add: parse_result_def run_response_def result_init_def count_check_def handle_test_def)
  ultimately show ?thesis
    using parse_result_counters [where attrs = attrs and l = l] by simp
qed

text \<open>
  C3 as the claim words it fails on a negative status: the single status \<open>-1\<close>
  (the unsigned 32-bit value \<open>0xFFFFFFFF\<close> stored into an \<open>int\<close>) leaves the
  failure counter at 0 and the assertion counter at \<open>-1\<close>, where the claim has
  both counters at 1.
\<close>

theorem parse_result_negative_status:
  "fail_cnt (snd (parse_result (run_response [KTF_A_STAT (- 1)]))) = 0
   \<and> sint (assert_cnt (snd (parse_result (run_response [KTF_A_STAT (- 1)])))) = - 1"
  by (simp add: parse_result_def run_response_def result_init_def count_check_def handle_test_def)

section \<open>The version check of parse\_query\<close>

lemma inventory_ignores_version:
  "parse_query_inventory (attrs\<lparr>a_VERSION := v\<rparr>) m = parse_query_inventory attrs m"
  by (simp add: parse_query_inventory_def
      cong: prod.case_cong nl_cb_action.case_cong option.case_cong)

lemma legacy_version:
  "or (KTF_VERSION_SET MAJOR 0) (KTF_VERSION_SET MINOR 1) = version_of 0 1 0 0"
  by (simp add: version_of_def KTF_VERSION_SET_def)

lemma version_fields:
  "KTF_VERSION MAJOR (version_of 0 1 0 0) = 0" "KTF_VERSION MINOR (version_of 0 1 0 0) = 1"
  "KTF_VERSION MAJOR (version_of 1 2 0 0) = 1" "KTF_VERSION MINOR (version_of 1 2 0 0) = 2"
  "KTF_VERSION MICRO (version_of 1 2 0 0) = 0" "KTF_VERSION BUILD (version_of 1 2 0 0) = 0"
  "KTF_VERSION MAJOR (version_of 1 2 7 3) = 1" "KTF_VERSION MINOR (version_of 1 2 7 3) = 2"
  "KTF_VERSION MICRO (version_of 1 2 7 3) = 7" "KTF_VERSION BUILD (version_of 1 2 7 3) = 3"
  "KTF_VERSION MAJOR (version_of 1 3 0 0) = 1" "KTF_VERSION MINOR (version_of 1 3 0 0) = 3"
  by (simp_all add: KTF_VERSION_def version_of_def KTF_VERSION_SET_def)

lemma inventory_one_set:
  "parse_query_inventory (query_response v [] [KTF_A_STR ''s'']) kmgr_new
     = (Ret NL_OK, [], find_add_set ''s'' kmgr_new)"
  by (simp add: parse_query_inventory_def query_response_def)

text \<open>
  C2: a response that reports a version whose major or minor field differs from the local
  one makes \<open>parse_query\<close> return \<open>NL_SKIP\<close> with the manager it was given, after
  the error line; a response whose version agrees in major and minor and differs in micro
  or build gets the note line, and \<open>parse_query\<close> goes on to parse the inventory.
\<close>

theorem parse_query_version_check:
  "(KTF_VERSION MAJOR kv \<noteq> KTF_VERSION MAJOR latest
      \<or> KTF_VERSION MINOR kv \<noteq> KTF_VERSION MINOR latest
    \<longrightarrow> parse_query latest (attrs\<lparr>a_VERSION := Some kv\<rparr>) m
          = (Ret NL_SKIP, [Version_error latest kv], m))
   \<and> (KTF_VERSION MAJOR kv = KTF_VERSION MAJOR latest
      \<and> KTF_VERSION MINOR kv = KTF_VERSION MINOR latest
      \<and> (KTF_VERSION MICRO kv \<noteq> KTF_VERSION MICRO latest
          \<or> KTF_VERSION BUILD kv \<noteq> KTF_VERSION BUILD latest)
    \<longrightarrow> parse_query latest (attrs\<lparr>a_VERSION := Some kv\<rparr>) m
          = (case parse_query_inventory attrs m of
               (r, d, m') \<Rightarrow> (r, Version_note latest kv # d, m')))"
  by (auto simp add: parse_query_def inventory_ignores_version)

text \<open>The spec's example: local 1.2.0.0 against 1.3.0.0 adds no set, against 1.2.7.3
  the set of the response is added.\<close>

theorem parse_query_version_check_witness:
  "parse_query (version_of 1 2 0 0)
      (query_response (Some (version_of 1 3 0 0)) [] [KTF_A_STR ''s'']) kmgr_new
     = (Ret NL_SKIP, [Version_error (version_of 1 2 0 0) (version_of 1 3 0 0)], kmgr_new)
   \<and> parse_query (version_of 1 2 0 0)
      (query_response (Some (version_of 1 2 7 3)) [] [KTF_A_STR ''s'']) kmgr_new
     = (Ret NL_OK, [Version_note (version_of 1 2 0 0) (version_of 1 2 7 3)],
        find_add_set ''s'' kmgr_new)"
proof -
  have a: "query_response (Some v) [] [KTF_A_STR ''s'']
      = (query_response None [] [KTF_A_STR ''s''])\<lparr>a_VERSION := Some v\<rparr>" for v
    by (simp add: query_response_def)
  show ?thesis
    using parse_query_version_check [of "version_of 1 3 0 0" "version_of 1 2 0 0"
        "query_response None [] [KTF_A_STR ''s'']" kmgr_new]
      parse_query_version_check [of "version_of 1 2 7 3" "version_of 1 2 0 0"
        "query_response None [] [KTF_A_STR ''s'']" kmgr_new]
    by (simp add: a version_fields inventory_one_set)
qed

text \<open>
  C9, as the code has it: a response without the version attribute is given the version
  0.1.0.0 and then goes through the same check as any other. The inventory is parsed
  when the local version is 0.1.0.0 (silently) or has major 0 and minor 1 (after the
  note line); for every other local version the response is skipped and the manager
  is the one given.
\<close>

theorem parse_query_no_version:
  "parse_query latest (attrs\<lparr>a_VERSION := None\<rparr>) m =
     (if latest = version_of 0 1 0 0 then parse_query_inventory attrs m
      else if KTF_VERSION MAJOR latest = 0 \<and> KTF_VERSION MINOR latest = 1
      then (case parse_query_inventory attrs m of
              (r, d, m') \<Rightarrow> (r, Version_note latest (version_of 0 1 0 0) # d, m'))
      else (Ret NL_SKIP, [Version_error latest (version_of 0 1 0 0)], m))"
  by (auto simp add: parse_query_def legacy_version version_fields inventory_ignores_version)

text \<open>
  C9 as the claim words it fails for the local version 1.2.0.0 of the spec's own
  example: the response without a version is skipped, and its set is not added.
\<close>

theorem parse_query_no_version_skipped:
  "parse_query (version_of 1 2 0 0) (query_response None [] [KTF_A_STR ''s'']) kmgr_new
     = (Ret NL_SKIP, [Version_error (version_of 1 2 0 0) (version_of 0 1 0 0)], kmgr_new)"
proof -
  have "version_of 1 2 0 0 \<noteq> version_of 0 1 0 0"
    by (simp add: version_of_def KTF_VERSION_SET_def)
  then show ?thesis
    by (simp add: parse_query_def query_response_def legacy_version version_fields Let_def)
qed

section \<open>Calls of the result handler\<close>

lemma loop_ok: "list_all expected_attr l \<Longrightarrow> fst (parse_result_loop l st) = NL_OK"
  by (induction l st rule: parse_result_loop.induct) simp_all

lemma loop_calls:
  "list_all expected_attr l \<Longrightarrow>
   \<exists>cs. calls (snd (parse_result_loop l st)) = calls st @ cs
     \<and> length cs = length (filter is_status l)
     \<and> map fst cs = butlast (result st # statuses_seen l)
     \<and> result (snd (parse_result_loop l st)) = last (result st # statuses_seen l)"
proof (induction l st rule: parse_result_loop.induct)
  case (2 v rest st)
  then show ?case
    by (cases "statuses_seen rest") (auto simp add: count_check_def handle_test_def)
qed auto

text \<open>
  C10, as the code has it: for a check list that begins with a status entry and holds
  only attributes of the four types \<open>parse_result\<close> expects, the handler is called
  once more than there are status entries; the first call carries the defaults
  \<open>-1\<close>, \<open>no_file\<close>, \<open>0\<close>, \<open>no_report\<close>, and the calls after it carry the
  statuses in their order.
\<close>

theorem parse_result_handler_calls:
  assumes "list_all expected_attr l"
  shows "fst (parse_result (attrs\<lparr>a_LIST := Some (KTF_A_STAT v # l)\<rparr>)) = NL_OK
    \<and> length (calls (snd (parse_result (attrs\<lparr>a_LIST := Some (KTF_A_STAT v # l)\<rparr>))))
        = length (filter is_status (KTF_A_STAT v # l)) + 1
    \<and> hd (calls (snd (parse_result (attrs\<lparr>a_LIST := Some (KTF_A_STAT v # l)\<rparr>))))
        = (- 1, ''no_file'', 0, ''no_report'')
    \<and> map fst (calls (snd (parse_result (attrs\<lparr>a_LIST := Some (KTF_A_STAT v # l)\<rparr>))))
        = - 1 # v # statuses_seen l"
proof -
  let ?st = "count_check v ((handle_test result_init)\<lparr>result := v\<rparr>)"
  have c0: "calls ?st = [(- 1, ''no_file'', 0, ''no_report'')]" and r0: "result ?st = v"
    by (simp_all add: count_check_def handle_test_def result_init_def)
  obtain cs where cs: "calls (snd (parse_result_loop l ?st)) = calls ?st @ cs"
      "length cs = length (filter is_status l)"
      "map fst cs = butlast (result ?st # statuses_seen l)"
      "result (snd (parse_result_loop l ?st)) = last (result ?st # statuses_seen l)"
    using loop_calls [OF assms, of ?st] by blast
  have ok: "fst (parse_result_loop l ?st) = NL_OK"
    using loop_ok [OF assms] by simp
  obtain st' where st': "parse_result_loop l ?st = (NL_OK, st')"
    using ok by (cases "parse_result_loop l ?st") simp
  have pr: "parse_result (attrs\<lparr>a_LIST := Some (KTF_A_STAT v # l)\<rparr>) = (NL_OK, handle_test st')"
    using st' by (simp add: parse_result_def)
  have "butlast (v # statuses_seen l) @ [last (v # statuses_seen l)] = v # statuses_seen l"
    by (rule append_butlast_last_id) simp
  then show ?thesis
    using cs st' c0 r0 by (simp add: pr handle_test_def)
qed

theorem parse_result_handler_calls_witness:
  "list_all expected_attr [KTF_A_FILE ''f.c'', KTF_A_NUM 10, KTF_A_STR ''r'', KTF_A_STAT 0]
   \<and> map fst (calls (snd (parse_result (run_response
        [KTF_A_STAT 2, KTF_A_FILE ''f.c'', KTF_A_NUM 10, KTF_A_STR ''r'', KTF_A_STAT 0]))))
      = [- 1, 2, 0]
   \<and> length (calls (snd (parse_result (run_response
        [KTF_A_STAT 2, KTF_A_FILE ''f.c'', KTF_A_NUM 10, KTF_A_STR ''r'', KTF_A_STAT 0])))) = 3"
proof -
  have h: "list_all expected_attr [KTF_A_FILE ''f.c'', KTF_A_NUM 10, KTF_A_STR ''r'', KTF_A_STAT 0]"
    by simp
  have a: "run_response (KTF_A_STAT 2 # l) = (run_response [])\<lparr>a_LIST := Some (KTF_A_STAT 2 # l)\<rparr>" for l
    by (simp add: run_response_def)
  show ?thesis
    using h parse_result_handler_calls [OF h, where attrs = "run_response []" and v = 2]
    by (simp add: a)
qed

text \<open>
  C10 as the claim words it fails when an attribute of another type follows: the list of
  one status and a handle id has one status entry, and the handler is called once, not
  twice, because \<open>parse_result\<close> returns \<open>NL_SKIP\<close> at the handle id.
\<close>

theorem parse_result_unexpected_attr:
  "fst (parse_result (run_response [KTF_A_STAT 1, KTF_A_HID 7])) = NL_SKIP
   \<and> length (calls (snd (parse_result (run_response [KTF_A_STAT 1, KTF_A_HID 7])))) = 1
   \<and> length (filter is_status [KTF_A_STAT 1, KTF_A_HID 7]) + 1 = 2"
  by (simp add: parse_result_def run_response_def result_init_def count_check_def handle_test_def)

section \<open>Ordered maps and the sets of the registry\<close>

lemma map_of_om_put [simp]: "map_of (om_put k v m) = (map_of m)(k \<mapsto> v)"
  by (induction m) (auto simp add: fun_upd_twist)

lemma om_put_twice [simp]: "om_put k v (om_put k w m) = om_put k v m"
  by (induction m) auto

lemma length_om_put_any: "length (om_put k v m) = length (om_put k w m)"
  by (induction m) auto

lemma om_put_index [simp]: "om_put k v (snd (om_index k d m)) = om_put k v m"
  by (simp add: om_index_def split: option.splits)

lemma om_erase_absent: "map_of m k = None \<Longrightarrow> om_erase k m = m"
  by (induction m) (auto simp add: om_erase_def split: if_splits)

lemma map_of_om_erase [simp]: "map_of (om_erase k m) = (map_of m)(k := None)"
  by (induction m) (auto simp add: om_erase_def)

lemma om_erase_om_put [simp]: "om_erase k (om_put k v m) = om_erase k m"
  by (induction m) (auto simp add: om_erase_def)

lemma the_set_sets_put [simp]:
  "the_set s' (m\<lparr>sets := om_put s ts ss\<rparr>) = (if s' = s then ts else the_set s' (m\<lparr>sets := ss\<rparr>))"
  by (simp add: the_set_def)

lemma the_set_sets_index [simp]:
  "the_set s' (m\<lparr>sets := snd (om_index s testset_new (sets m))\<rparr>) = the_set s' m"
  by (simp add: the_set_def om_index_def split: option.splits)

lemma the_set_sets_same [simp]: "the_set s (m\<lparr>sets := sets m\<rparr>) = the_set s m"
  by (simp add: the_set_def)

lemma the_set_other_fields [simp]:
  "the_set s (m\<lparr>mgr_test_names := a\<rparr>) = the_set s m"
  "the_set s (m\<lparr>set_names := b\<rparr>) = the_set s m"
  "the_set s (m\<lparr>kernelsets := c\<rparr>) = the_set s m"
  "the_set s (m\<lparr>handle_to_ctxvec := d\<rparr>) = the_set s m"
  "the_set s (m\<lparr>cfg_contexts := e\<rparr>) = the_set s m"
  "the_set s (m\<lparr>next_set := f\<rparr>) = the_set s m"
  "the_set s (m\<lparr>cur := g\<rparr>) = the_set s m"
  by (simp_all add: the_set_def)

lemma find_add_set_eq:
  "find_add_set s m =
     (if s \<in> kernelsets m then m\<lparr>sets := snd (om_index s testset_new (sets m))\<rparr>
      else m\<lparr>kernelsets := insert s (kernelsets m), set_names := set_names m @ [s],
             sets := om_put s ((the_set s m)\<lparr>setnum := next_set m\<rparr>) (sets m),
             next_set := next_set m + 1\<rparr>)"
  by (auto simp add: find_add_set_def the_set_def om_index_def Let_def split: option.splits)

lemma the_set_find_add_set:
  "the_set s' (find_add_set s m) =
     (if s' = s \<and> s \<notin> kernelsets m then (the_set s m)\<lparr>setnum := next_set m\<rparr> else the_set s' m)"
  by (simp add: find_add_set_eq)

lemma find_add_set_fields [simp]:
  "handle_to_ctxvec (find_add_set s m) = handle_to_ctxvec m"
  "cfg_contexts (find_add_set s m) = cfg_contexts m"
  "mgr_test_names (find_add_set s m) = mgr_test_names m"
  "cur (find_add_set s m) = cur m"
  by (simp_all add: find_add_set_eq)

lemma get_contexts_eq:
  "get_contexts h m = (contexts_of h m, m\<lparr>handle_to_ctxvec := snd (om_index h [] (handle_to_ctxvec m))\<rparr>)"
  by (simp add: get_contexts_def contexts_of_def om_index_def split: prod.splits option.splits)

lemma add_test_eq:
  "add_test s t hid m =
     (let m1 = find_add_set s m; ts = the_set s m1
      in m1\<lparr>mgr_test_names := mgr_test_names m @ [t],
            handle_to_ctxvec := (if hid = 0 then handle_to_ctxvec m1
                                 else snd (om_index hid [] (handle_to_ctxvec m1))),
            sets := om_put s
              (ts\<lparr>tests := om_put t (Some (new_test s t m)) (tests ts),
                  test_names := test_names ts @
                     (if hid = 0 then [t] else map (\<lambda>c. t @ ''_'' @ c) (contexts_of hid m)),
                  wrapper := om_erase t (wrapper ts)\<rparr>)
              (sets m1)\<rparr>)"
proof -
  have c: "contexts_of hid (find_add_test s t m) = contexts_of hid m"
    by (simp add: contexts_of_def find_add_test_def)
  have l: "length (om_put t v (tests (the_set s (find_add_set s m))))
      = length (om_put t None (tests (the_set s m)))" for v
    by (simp add: the_set_find_add_set length_om_put_any [of t v _ None])
  have w: "wrapper (the_set s (find_add_set s m)) = wrapper (the_set s m)"
    by (simp add: the_set_find_add_set)
  show ?thesis
    unfolding add_test_def
    by (cases "map_of (wrapper (the_set s m)) t")
       (simp_all add: Let_def find_add_test_def get_contexts_eq c l w new_test_def om_erase_absent
                      contexts_of_def KernelTest_init_def)
qed

lemma add_test_names:
  "test_names (the_set s (add_test s t hid m)) =
     test_names (the_set s m) @
       (if hid = 0 then [t] else map (\<lambda>c. t @ ''_'' @ c) (contexts_of hid m))"
  by (simp add: add_test_eq Let_def the_set_find_add_set)

section \<open>Name resolution\<close>

lemma sets_tests_index_eq:
  "sets_tests_index s x m =
     (lookup_test s x m,
      m\<lparr>sets := om_put s ((the_set s m)\<lparr>tests := snd (om_index x None (tests (the_set s m)))\<rparr>) (sets m)\<rparr>)"
  by (auto simp add: sets_tests_index_def lookup_test_def the_set_def om_index_def testset_new_def
      split: option.splits prod.splits)

lemma touch_test_eq:
  "touch_test s x m =
     m\<lparr>sets := om_put s ((the_set s m)\<lparr>tests := snd (om_index x None (tests (the_set s m)))\<rparr>) (sets m)\<rparr>"
  by (simp add: touch_test_def sets_tests_index_eq)

lemma lookup_touch [simp]: "lookup_test s' y (touch_test s x m) = lookup_test s' y m"
  by (auto simp add: touch_test_eq lookup_test_def om_index_def split: option.splits)

lemma touch_fields [simp]:
  "handle_to_ctxvec (touch_test s x m) = handle_to_ctxvec m"
  "set_names (touch_test s x m) = set_names m"
  "kernelsets (touch_test s x m) = kernelsets m"
  "next_set (touch_test s x m) = next_set m"
  "cur (touch_test s x m) = cur m"
  by (simp_all add: touch_test_eq)

lemma find_test_loop_unfold:
  "find_test_loop s t pos pctx m =
     (case lookup_test s (substr t 0 pos) m of
        Some k \<Rightarrow> Some (Some k, substr t (pos + 1) npos, touch_test s (substr t 0 pos) m)
      | None \<Rightarrow> find_test_loop s t (find_last_of (substr t 0 pos) (CHR ''_''))
                  (substr t (pos + 1) npos) (touch_test s (substr t 0 pos) m))"
  by (subst find_test_loop.simps)
     (simp add: sets_tests_index_eq touch_test_eq Let_def split: option.splits)

lemma find_test_eq:
  "find_test s t pctx m =
     (case lookup_test s t m of
        Some k \<Rightarrow> Some (Some k, [], touch_test s t m)
      | None \<Rightarrow> if handle_to_ctxvec m = [] then Some (None, pctx, touch_test s t m)
                else find_test_loop s t (find_last_of t (CHR ''_'')) pctx (touch_test s t m))"
  by (simp add: find_test_def sets_tests_index_eq touch_test_eq Let_def split: option.splits)

text \<open>A loop that returns has found a prefix of the name among the tests.\<close>

lemma find_test_loop_returns:
  assumes "find_test_loop s t pos pctx m = Some y"
  shows "\<exists>n. lookup_test s (take n t) m \<noteq> None"
proof (rule find_test_loop.raw_induct
    [where P = "\<lambda>s t pos pctx m y. \<exists>n. lookup_test s (take n t) m \<noteq> None", OF _ assms],
    goal_cases)
  case (1 f s t pos pctx m y)
  show ?case
  proof (cases "lookup_test s (substr t 0 pos) m")
    case None
    then have "f s t (find_last_of (substr t 0 pos) (CHR ''_'')) (substr t (pos + 1) npos)
        (touch_test s (substr t 0 pos) m) = Some y"
      using 1(2) by (simp add: sets_tests_index_eq touch_test_eq Let_def)
    from 1(1) [OF this] show ?thesis by simp
  next
    case (Some k)
    then show ?thesis by (auto simp add: substr_def)
  qed
qed

lemma find_test_never_returns:
  assumes "\<forall>n. lookup_test s (take n t) m = None" and "handle_to_ctxvec m \<noteq> []"
  shows "find_test s t pctx m = None"
proof -
  have "lookup_test s t m = None"
    using assms(1) [rule_format, of "length t"] by simp
  moreover have "find_test_loop s t pos pctx (touch_test s t m) = None" for pos
    using find_test_loop_returns [of s t pos pctx "touch_test s t m"] assms(1)
    by (cases "find_test_loop s t pos pctx (touch_test s t m)") auto
  ultimately show ?thesis
    using assms(2) by (simp add: find_test_eq)
qed

lemma unat_npos: "unat npos = 2 ^ 64 - 1"
  by (simp add: npos_def unsigned_minus_1_eq_mask mask_eq_exp_minus_1)

lemma unat_of_nat_succ:
  assumes "Suc i < 2 ^ 64"
  shows "unat (of_nat i + 1 :: 64 word) = Suc i" and "unat (of_nat i :: 64 word) = i"
proof -
  have "(of_nat i + 1 :: 64 word) = of_nat (Suc i)" by simp
  then have "unat (of_nat i + 1 :: 64 word) = Suc i mod 2 ^ 64"
    by (simp only: unat_of_nat) simp
  then show "unat (of_nat i + 1 :: 64 word) = Suc i" using assms by simp
  show "unat (of_nat i :: 64 word) = i" using assms by (simp add: unat_of_nat)
qed

lemma last_index_snoc: "last_index (xs @ [x]) c = (if x = c then Some (length xs) else last_index xs c)"
  by (induction xs) (auto split: option.splits)

lemma last_index_less: "last_index xs c = Some i \<Longrightarrow> i < length xs"
  by (induction xs arbitrary: i) (auto split: option.splits if_splits)

lemma last_index_nth: "last_index xs c = Some i \<Longrightarrow> xs ! i = c"
  by (induction xs arbitrary: i) (auto split: option.splits if_splits)

text \<open>A position that \<open>find_last_of\<close> returns is \<open>npos\<close> or lies inside the string,
  so the start \<open>pos + 1\<close> that \<open>find_test\<close> passes to \<open>substr\<close> never lies
  behind its end.\<close>

lemma find_last_of_range:
  "length s < 2 ^ 64 \<Longrightarrow>
   find_last_of s c = npos \<and> unat (find_last_of s c + 1) = 0
   \<or> unat (find_last_of s c) < length s \<and> unat (find_last_of s c + 1) \<le> length s"
proof (cases "last_index s c")
  case None
  then show ?thesis by (simp add: find_last_of_def npos_def)
next
  case (Some i)
  assume "length s < 2 ^ 64"
  with Some have "i < 2 ^ 64" "Suc i < 2 ^ 64" "i < length s"
    using last_index_less [OF Some] by simp_all
  then have "unat (of_nat i :: 64 word) = i" "unat (of_nat i + 1 :: 64 word) = Suc i"
    by (simp_all add: unat_of_nat_succ)
  then show ?thesis using Some \<open>i < length s\<close> by (simp add: find_last_of_def)
qed

lemma resolve_at_last:
  "i \<le> length t \<Longrightarrow>
   resolve_at t i look =
     (case last_index (take i t) (CHR ''_'') of None \<Rightarrow> None | Some j \<Rightarrow> resolve_at t (Suc j) look)"
proof (induction i)
  case 0
  then show ?case by simp
next
  case (Suc i)
  then have "take (Suc i) t = take i t @ [t ! i]"
    by (simp add: take_Suc_conv_app_nth)
  with Suc show ?case
    by (simp add: last_index_snoc)
qed

lemma substr_prefix: "i < 2 ^ 64 \<Longrightarrow> substr t 0 (of_nat i) = take i t"
  by (simp add: substr_def unat_of_nat)

lemma substr_rest: "length t < 2 ^ 64 \<Longrightarrow> i < length t \<Longrightarrow> substr t (of_nat i + 1) npos = drop (Suc i) t"
proof -
  assume a: "length t < 2 ^ 64" "i < length t"
  then have "unat (of_nat i + 1 :: 64 word) = Suc i"
    by (simp add: unat_of_nat_succ)
  then show ?thesis using a by (simp add: substr_def unat_npos)
qed

lemma find_test_loop_resolves:
  assumes "length t < 2 ^ 64"
  shows "i < length t \<Longrightarrow> t ! i = CHR ''_'' \<Longrightarrow>
     resolve_at t (Suc i) (\<lambda>x. lookup_test s x m) = Some (k, c) \<Longrightarrow>
     map_option found (find_test_loop s t (of_nat i) pctx m) = Some (Some k, c)"
proof (induction i arbitrary: m pctx rule: less_induct)
  case (less i)
  have i: "i < 2 ^ 64" using less.prems(1) assms by simp
  show ?case
  proof (cases "lookup_test s (take i t) m")
    case (Some k')
    then show ?thesis
      using less.prems assms
      by (subst find_test_loop_unfold) (simp add: substr_prefix [OF i] substr_rest found_def)
  next
    case None
    then have r: "resolve_at t i (\<lambda>x. lookup_test s x m) = Some (k, c)"
      using less.prems by simp
    then obtain j where j: "last_index (take i t) (CHR ''_'') = Some j"
        and rj: "resolve_at t (Suc j) (\<lambda>x. lookup_test s x m) = Some (k, c)"
      using resolve_at_last [of i t "\<lambda>x. lookup_test s x m"] less.prems(1)
      by (auto split: option.splits)
    have ji: "j < i" using last_index_less [OF j] less.prems(1) by simp
    have tj: "t ! j = CHR ''_''" using last_index_nth [OF j] ji by simp
    have "map_option found (find_test_loop s t (of_nat j) (drop (Suc i) t) (touch_test s (take i t) m))
        = Some (Some k, c)"
      using less.IH [OF ji _ tj, of "touch_test s (take i t) m"] ji less.prems(1) rj by simp
    then show ?thesis
      using None j less.prems(1) assms
      by (subst find_test_loop_unfold) (simp add: substr_prefix [OF i] substr_rest find_last_of_def)
  qed
qed

lemma find_test_resolves:
  assumes "length t < 2 ^ 64" and "lookup_test s t m = None" and "handle_to_ctxvec m \<noteq> []"
    and "resolve_at t (length t) (\<lambda>x. lookup_test s x m) = Some (k, c)"
  shows "map_option found (find_test s t pctx m) = Some (Some k, c)"
proof -
  obtain j where j: "last_index t (CHR ''_'') = Some j"
      and rj: "resolve_at t (Suc j) (\<lambda>x. lookup_test s x m) = Some (k, c)"
    using resolve_at_last [of "length t" t "\<lambda>x. lookup_test s x m"] assms(4)
    by (auto split: option.splits)
  have "map_option found (find_test_loop s t (of_nat j) pctx (touch_test s t m)) = Some (Some k, c)"
    using find_test_loop_resolves [OF assms(1) last_index_less [OF j] last_index_nth [OF j],
        of s "touch_test s t m"] rj by simp
  then show ?thesis
    using assms(2,3) j by (simp add: find_test_eq find_last_of_def)
qed

lemma ping_registry_eval:
  "the_set ''set'' ping_registry
     = \<lparr>tests = [(''ping'', Some ping_test)], test_names = [''ping_ctxA'', ''ping_ctxB''],
        wrapper = [], setnum = 0\<rparr>"
  "handle_to_ctxvec ping_registry = [(5, [''ctxA'', ''ctxB''])]"
  by (simp_all add: ping_registry_def ping_test_def add_test_eq find_add_set_eq add_cset_def kmgr_new_def
      the_set_def testset_new_def new_test_def contexts_of_def om_index_def om_erase_def
      KernelTest_init_def Let_def)

lemma ping_lookup:
  "lookup_test ''set'' x ping_registry = (if x = ''ping'' then Some ping_test else None)"
  by (simp add: lookup_test_def ping_registry_eval)

text \<open>
  C8: the constructor appends to the set's name list the bare test name when the handle
  id is zero, and otherwise one name \<open>test_name @ ''_'' @ context_name\<close> for each
  context of the handle, in the order of the handle's list. With handle 5 owning
  \<open>ctxA\<close> and \<open>ctxB\<close> and the test \<open>ping\<close> under handle 5, the list is
  \<open>ping_ctxA\<close>, \<open>ping_ctxB\<close>, and \<open>find_test\<close> on \<open>ping_ctxA\<close> returns
  the \<open>ping\<close> object with the context \<open>ctxA\<close>.
\<close>

theorem add_test_generates_names:
  "test_names (the_set s (add_test s t hid m)) =
     test_names (the_set s m) @
       (if hid = 0 then [t] else map (\<lambda>c. t @ ''_'' @ c) (contexts_of hid m))
   \<and> contexts_of 5 (add_cset 5 [''ctxA'', ''ctxB''] kmgr_new) = [''ctxA'', ''ctxB'']
   \<and> test_names (the_set ''set'' ping_registry) = [''ping_ctxA'', ''ping_ctxB'']
   \<and> find_test ''set'' ''ping_ctxA'' [] ping_registry
       = Some (Some ping_test, ''ctxA'', touch_test ''set'' ''ping'' (touch_test ''set'' ''ping_ctxA'' ping_registry))
   \<and> kt_testname ping_test = ''ping'' \<and> kt_setname ping_test = ''set''"
proof -
  have "find_last_of ''ping_ctxA'' (CHR ''_'') = 4"
    by (simp add: find_last_of_def)
  moreover have "substr ''ping_ctxA'' 0 4 = ''ping''" "substr ''ping_ctxA'' (4 + 1) npos = ''ctxA''"
    by (simp_all add: substr_def unat_npos)
  ultimately have "find_test ''set'' ''ping_ctxA'' [] ping_registry
       = Some (Some ping_test, ''ctxA'', touch_test ''set'' ''ping'' (touch_test ''set'' ''ping_ctxA'' ping_registry))"
    by (simp add: find_test_eq ping_lookup ping_registry_eval find_test_loop_unfold [of _ _ 4])
  moreover have "contexts_of 5 (add_cset 5 [''ctxA'', ''ctxB''] kmgr_new) = [''ctxA'', ''ctxB'']"
    by (simp add: contexts_of_def add_cset_def kmgr_new_def)
  ultimately show ?thesis
    by (simp add: add_test_names ping_registry_eval ping_test_def KernelTest_init_def)
qed

text \<open>
  C1, as the code has it: \<open>find_test\<close> returns the test with an empty context when
  the name is a test of the set; it returns the null pointer when it is not and no
  handle has a context list; and when some prefix of the name that ends in front of an
  underscore is a test of the set, it returns the test of the longest such prefix,
  with everything behind that underscore in the name as the context. What it does
  when handles have context lists and no such prefix exists is not part of the
  statement.
\<close>

theorem find_test_resolution:
  "(lookup_test s t m = Some k \<longrightarrow> find_test s t pctx m = Some (Some k, [], touch_test s t m))
   \<and> (lookup_test s t m = None \<and> handle_to_ctxvec m = []
        \<longrightarrow> find_test s t pctx m = Some (None, pctx, touch_test s t m))
   \<and> (lookup_test s t m = None \<and> handle_to_ctxvec m \<noteq> [] \<and> length t < 2 ^ 64
        \<and> resolve_at t (length t) (\<lambda>x. lookup_test s x m) = Some (k', c)
        \<longrightarrow> map_option found (find_test s t pctx m) = Some (Some k', c))"
  using find_test_resolves [of t s m k' c pctx] by (simp add: find_test_eq)

lemma ping_a_b_resolve:
  "resolve_at ''ping_a_b'' (length ''ping_a_b'') (\<lambda>x. lookup_test ''set'' x ping_registry)
     = Some (ping_test, ''a_b'')"
  by (simp add: ping_lookup eval_nat_numeral)

text \<open>The three cases of C1 at \<open>ping\<close>, at the empty registry and at
  \<open>ping_a_b\<close>.\<close>

theorem find_test_resolution_witness:
  "find_test ''set'' ''ping'' ''old'' ping_registry
      = Some (Some ping_test, [], touch_test ''set'' ''ping'' ping_registry)
   \<and> find_test ''set'' ''ping_a_b'' ''old'' kmgr_new
      = Some (None, ''old'', touch_test ''set'' ''ping_a_b'' kmgr_new)
   \<and> map_option found (find_test ''set'' ''ping_a_b'' ''old'' ping_registry)
      = Some (Some ping_test, ''a_b'')"
proof -
  have "lookup_test ''set'' ''ping_a_b'' kmgr_new = None" "handle_to_ctxvec kmgr_new = []"
    by (simp_all add: lookup_test_def the_set_def kmgr_new_def testset_new_def)
  then show ?thesis
    using find_test_resolution [of "''set''" "''ping''" ping_registry ping_test "''old''"]
      find_test_resolution [of "''set''" "''ping_a_b''" kmgr_new _ "''old''"]
      find_test_resolution [of "''set''" "''ping_a_b''" ping_registry _ "''old''" ping_test "''a_b''"]
      ping_a_b_resolve
    by (simp add: ping_lookup ping_registry_eval)
qed

text \<open>
  C1 as the claim words it fails twice. For \<open>ping_a_b\<close> the second split is that of
  the remaining candidate \<open>ping_a\<close>, whose suffix is \<open>a\<close>, and the context
  returned is \<open>a_b\<close>. For \<open>nosuch\<close>, which has no underscore and is no test,
  \<open>find_test\<close> does not return: \<open>pos >= 0\<close> holds for every \<open>size_t\<close>, and
  from \<open>npos\<close> the loop looks up the whole name again.
\<close>

theorem find_test_context_and_loop:
  "map_option found (find_test ''set'' ''ping_a_b'' [] ping_registry) = Some (Some ping_test, ''a_b'')
   \<and> substr ''ping_a'' (find_last_of ''ping_a'' (CHR ''_'') + 1) npos = ''a''
   \<and> find_test ''set'' ''nosuch'' [] ping_registry = None"
proof -
  have "map_option found (find_test ''set'' ''ping_a_b'' [] ping_registry) = Some (Some ping_test, ''a_b'')"
    using find_test_resolves [of "''ping_a_b''" "''set''" ping_registry ping_test "''a_b''" "[]"]
      ping_a_b_resolve
    by (simp add: ping_lookup ping_registry_eval)
  moreover have "substr ''ping_a'' (find_last_of ''ping_a'' (CHR ''_'') + 1) npos = ''a''"
    by (simp add: find_last_of_def substr_def unat_npos)
  moreover have "\<forall>n. take n ''nosuch'' \<noteq> ''ping''"
  proof
    fix n
    have "length (take n ''nosuch'') \<le> 6" by simp
    show "take n ''nosuch'' \<noteq> ''ping''"
    proof
      assume a: "take n ''nosuch'' = ''ping''"
      then have "hd (take n ''nosuch'') = CHR ''p''" by simp
      moreover have "take n ''nosuch'' \<noteq> []" using a by simp
      then have "0 < n" by (cases n) simp_all
      then have "hd (take n ''nosuch'') = CHR ''n''" by (cases n) simp_all
      ultimately show False by simp
    qed
  qed
  then have "find_test ''set'' ''nosuch'' [] ping_registry = None"
    by (intro find_test_never_returns) (simp_all add: ping_lookup ping_registry_eval)
  ultimately show ?thesis by simp
qed

section \<open>Deferred wrapper binding\<close>

lemma add_wrapper_eq:
  "add_wrapper s t cb m =
     (case lookup_test s t m of
        Some k \<Rightarrow>
          m\<lparr>sets := om_put s
            ((the_set s m)\<lparr>tests := om_put t (Some (k\<lparr>user_test := cb\<rparr>)) (tests (the_set s m))\<rparr>)
            (sets m)\<rparr>
      | None \<Rightarrow>
          m\<lparr>sets := om_put s
            ((the_set s m)\<lparr>tests := snd (om_index t None (tests (the_set s m))),
                          wrapper := om_put t cb (wrapper (the_set s m))\<rparr>)
            (sets m)\<rparr>)"
  by (auto simp add: add_wrapper_def lookup_test_def the_set_def om_index_def testset_new_def
      split: option.splits prod.splits)

lemma om_put_sets_find_add_set [simp]:
  "om_put s X (sets (find_add_set s m)) = om_put s X (sets m)"
  by (simp add: find_add_set_eq)

lemma find_add_set_sets_put:
  "find_add_set s (m\<lparr>sets := om_put s ts (sets m)\<rparr>) =
     (if s \<in> kernelsets m then m\<lparr>sets := om_put s ts (sets m)\<rparr>
      else m\<lparr>kernelsets := insert s (kernelsets m), set_names := set_names m @ [s],
             sets := om_put s (ts\<lparr>setnum := next_set m\<rparr>) (sets m),
             next_set := next_set m + 1\<rparr>)"
  by (simp add: find_add_set_eq om_index_def)

lemma length_om_put_index: "length (om_put k v (snd (om_index k d m))) = length (om_put k w m)"
  by (simp add: length_om_put_any [of k v m w])

lemma lookup_add_test: "lookup_test s t (add_test s t hid m) = Some (new_test s t m)"
  by (simp add: add_test_eq Let_def lookup_test_def)


lemma new_test_setnum:
  "kt_setnum (new_test s t m) = (if s \<in> kernelsets m then setnum (the_set s m) else next_set m)"
  by (simp add: new_test_def the_set_find_add_set)

lemma add_test_flat:
  "add_test s t hid m =
     m\<lparr>kernelsets := insert s (kernelsets m),
       set_names := (if s \<in> kernelsets m then set_names m else set_names m @ [s]),
       next_set := (if s \<in> kernelsets m then next_set m else next_set m + 1),
       mgr_test_names := mgr_test_names m @ [t],
       handle_to_ctxvec := (if hid = 0 then handle_to_ctxvec m
                            else snd (om_index hid [] (handle_to_ctxvec m))),
       sets := om_put s
         ((the_set s m)
            \<lparr>setnum := (if s \<in> kernelsets m then setnum (the_set s m) else next_set m),
             tests := om_put t (Some (new_test s t m)) (tests (the_set s m)),
             test_names := test_names (the_set s m) @
                (if hid = 0 then [t] else map (\<lambda>c. t @ ''_'' @ c) (contexts_of hid m)),
             wrapper := om_erase t (wrapper (the_set s m))\<rparr>)
         (sets m)\<rparr>"
proof (cases "s \<in> kernelsets m")
  case True
  then have "insert s (kernelsets m) = kernelsets m" by auto
  with True show ?thesis
    by (simp add: add_test_eq Let_def find_add_set_eq)
next
  case False
  then show ?thesis
    by (simp add: add_test_eq Let_def find_add_set_eq)
qed

text \<open>
  C7: for a test \<open>(s, t)\<close> that does not exist yet, \<open>add_wrapper\<close> before
  \<open>add_test\<close> and \<open>add_wrapper\<close> after \<open>add_test\<close> leave the same manager; in
  it the test of \<open>(s, t)\<close> is the object the constructor builds with \<open>cb\<close> as
  its \<open>user_test\<close>, and the set's \<open>wrapper\<close> map has no entry for \<open>t\<close>.
\<close>

theorem wrapper_binding_order:
  assumes "lookup_test s t m = None"
  shows "add_test s t hid (add_wrapper s t cb m) = add_wrapper s t cb (add_test s t hid m)
    \<and> lookup_test s t (add_wrapper s t cb (add_test s t hid m))
        = Some ((new_test s t m)\<lparr>user_test := cb\<rparr>)
    \<and> map_of (wrapper (the_set s (add_wrapper s t cb (add_test s t hid m)))) t = None"
proof -
  let ?a = "add_wrapper s t cb m"
  let ?b = "add_test s t hid m"
  let ?ts = "the_set s m"
  have a: "?a = m\<lparr>sets := om_put s
            (?ts\<lparr>tests := snd (om_index t None (tests ?ts)),
                 wrapper := om_put t cb (wrapper ?ts)\<rparr>)
            (sets m)\<rparr>"
    using assms by (simp add: add_wrapper_eq)
  have ta: "the_set s ?a = ?ts\<lparr>tests := snd (om_index t None (tests ?ts)),
                 wrapper := om_put t cb (wrapper ?ts)\<rparr>"
    by (simp add: a)
  have fa: "kernelsets ?a = kernelsets m" "set_names ?a = set_names m" "next_set ?a = next_set m"
     "mgr_test_names ?a = mgr_test_names m" "handle_to_ctxvec ?a = handle_to_ctxvec m"
     "contexts_of hid ?a = contexts_of hid m"
    by (simp_all add: a contexts_of_def)
  have n: "new_test s t ?a = (new_test s t m)\<lparr>user_test := cb\<rparr>"
    by (simp add: new_test_def ta fa the_set_find_add_set length_om_put_index)
  have l: "add_test s t hid ?a =
     m\<lparr>kernelsets := insert s (kernelsets m),
       set_names := (if s \<in> kernelsets m then set_names m else set_names m @ [s]),
       next_set := (if s \<in> kernelsets m then next_set m else next_set m + 1),
       mgr_test_names := mgr_test_names m @ [t],
       handle_to_ctxvec := (if hid = 0 then handle_to_ctxvec m
                            else snd (om_index hid [] (handle_to_ctxvec m))),
       sets := om_put s
         (?ts
            \<lparr>setnum := (if s \<in> kernelsets m then setnum ?ts else next_set m),
             tests := om_put t (Some ((new_test s t m)\<lparr>user_test := cb\<rparr>)) (tests ?ts),
             test_names := test_names ?ts @
                (if hid = 0 then [t] else map (\<lambda>c. t @ ''_'' @ c) (contexts_of hid m)),
             wrapper := om_erase t (wrapper ?ts)\<rparr>)
         (sets m)\<rparr>"
    by (subst add_test_flat) (simp add: n ta fa, simp add: a)
  have tb: "the_set s ?b = ?ts
            \<lparr>setnum := (if s \<in> kernelsets m then setnum ?ts else next_set m),
             tests := om_put t (Some (new_test s t m)) (tests ?ts),
             test_names := test_names ?ts @
                (if hid = 0 then [t] else map (\<lambda>c. t @ ''_'' @ c) (contexts_of hid m)),
             wrapper := om_erase t (wrapper ?ts)\<rparr>"
    by (subst add_test_flat) simp
  let ?T = "?ts
            \<lparr>setnum := (if s \<in> kernelsets m then setnum ?ts else next_set m),
             tests := om_put t (Some ((new_test s t m)\<lparr>user_test := cb\<rparr>)) (tests ?ts),
             test_names := test_names ?ts @
                (if hid = 0 then [t] else map (\<lambda>c. t @ ''_'' @ c) (contexts_of hid m)),
             wrapper := om_erase t (wrapper ?ts)\<rparr>"
  have T: "(the_set s ?b)\<lparr>tests := om_put t (Some ((new_test s t m)\<lparr>user_test := cb\<rparr>))
               (tests (the_set s ?b))\<rparr> = ?T"
    by (rule testset.equality) (simp_all add: tb)
  have sb: "om_put s X (sets ?b) = om_put s X (sets m)" for X
    by (subst add_test_flat) simp
  have r: "add_wrapper s t cb ?b = ?b\<lparr>sets := om_put s ?T (sets m)\<rparr>"
    by (simp add: add_wrapper_eq lookup_add_test T sb)
  have r': "add_wrapper s t cb ?b = add_test s t hid ?a"
    unfolding r l by (subst add_test_flat) simp
  show ?thesis
    unfolding r' [symmetric]
    by (simp add: r lookup_test_def)
qed

theorem wrapper_binding_order_witness:
  "lookup_test ''set'' ''pong'' ping_registry = None
   \<and> add_test ''set'' ''pong'' 5 (add_wrapper ''set'' ''pong'' (Some 7) ping_registry)
       = add_wrapper ''set'' ''pong'' (Some 7) (add_test ''set'' ''pong'' 5 ping_registry)
   \<and> map_option user_test
         (lookup_test ''set'' ''pong''
            (add_wrapper ''set'' ''pong'' (Some 7) (add_test ''set'' ''pong'' 5 ping_registry)))
       = Some (Some 7)
   \<and> map_of (wrapper (the_set ''set''
         (add_wrapper ''set'' ''pong'' (Some 7) (add_test ''set'' ''pong'' 5 ping_registry)))) ''pong''
       = None"
proof -
  have h: "lookup_test ''set'' ''pong'' ping_registry = None"
    by (simp add: ping_lookup)
  show ?thesis
    using h wrapper_binding_order [OF h, of 5 "Some 7"] by simp
qed

section \<open>Enumeration\<close>

lemma skip_combined_Nil [simp]: "skip_combined pe [] = ([], [])"
  by (subst skip_combined.simps) simp

lemma skip_combined_Cons:
  "skip_combined pe (e # es) =
     (if wrapper (snd e) \<noteq> []
      then ((if test_names (snd e) = [] then [fst e] else []) @ fst (skip_combined pe es),
            snd (skip_combined pe es))
      else ([], e # es))"
  by (subst skip_combined.simps) (simp add: it_deref_def split: prod.splits)

lemma skip_combined_eq:
  "skip_combined pe es =
     (map fst (filter (\<lambda>e. test_names (snd e) = []) (takeWhile (\<lambda>e. wrapper (snd e) \<noteq> []) es)),
      dropWhile (\<lambda>e. wrapper (snd e) \<noteq> []) es)"
  by (induction es) (simp_all add: skip_combined_Cons)

lemma it_rest_begin:
  "sorted_wrt (<) (map fst (xs @ ys)) \<Longrightarrow> it_rest (xs @ ys) (it_begin ys) = ys"
proof (cases ys)
  case Nil
  then show ?thesis by (simp add: it_rest_def it_begin_def)
next
  case (Cons e es)
  assume "sorted_wrt (<) (map fst (xs @ ys))"
  then have "\<forall>x\<in>set xs. fst x < fst e"
    using Cons by (auto simp add: sorted_wrt_append)
  then have "dropWhile (\<lambda>x. fst x < fst e) (xs @ e # es) = e # es"
    by (simp add: dropWhile_append)
  then show ?thesis using Cons by (simp add: it_rest_def it_begin_def)
qed

lemma pending_suffix: "\<exists>xs. sets m = xs @ pending m"
proof (cases "cur m")
  case None
  then show ?thesis by (simp add: pending_def)
next
  case (Some c)
  show ?thesis
  proof (cases "iter_it c")
    case (It_at k)
    have "sets m = takeWhile (\<lambda>e. fst e < k) (sets m) @ dropWhile (\<lambda>e. fst e < k) (sets m)"
      by simp
    then show ?thesis using Some It_at unfolding pending_def it_rest_def
      by (simp only: option.case set_iter.case) blast
  next
    case It_end
    then show ?thesis using Some by (simp add: pending_def it_rest_def)
  qed
qed

lemma get_test_names_eq:
  "get_test_names pe m =
     (case dropWhile (\<lambda>e. wrapper (snd e) \<noteq> []) (pending m) of
        [] \<Rightarrow> (([], logged (pending m)), m\<lparr>cur := None\<rparr>)
      | e # es \<Rightarrow> ((test_names (snd e), logged (takeWhile (\<lambda>e. wrapper (snd e) \<noteq> []) (pending m))),
                   m\<lparr>cur := Some \<lparr>iter_it = it_begin es, iter_setname = fst e\<rparr>\<rparr>))"
proof -
  have p: "it_rest (sets m) (iter_it (case cur m of None \<Rightarrow> \<lparr>iter_it = it_begin (sets m), iter_setname = []\<rparr> | Some c \<Rightarrow> c)) = pending m"
  proof (cases "cur m")
    case None
    have "it_rest (sets m) (it_begin (sets m)) = sets m"
      by (cases "sets m") (simp_all add: it_rest_def it_begin_def)
    then show ?thesis using None by (simp add: pending_def)
  next
    case (Some c)
    then show ?thesis by (simp add: pending_def)
  qed
  let ?w = "\<lambda>e::string \<times> testset. wrapper (snd e) \<noteq> []"
  have l2: "logged (takeWhile ?w es) = map fst (filter (\<lambda>e. test_names (snd e) = []) (takeWhile ?w es))"
    for es :: "(string \<times> testset) list"
    by (induction es) (auto simp add: logged_def)
  show ?thesis
  proof (cases "dropWhile ?w (pending m)")
    case Nil
    then have tw: "takeWhile ?w (pending m) = pending m"
      by (simp add: dropWhile_eq_Nil_conv)
    have "logged (pending m) = map fst (filter (\<lambda>e. test_names (snd e) = []) (takeWhile ?w (pending m)))"
      using l2 [of "pending m"] unfolding tw .
    then show ?thesis
      unfolding get_test_names_def Let_def p skip_combined_eq Nil by simp
  next
    case (Cons e es)
    then show ?thesis
      unfolding get_test_names_def Let_def p skip_combined_eq Cons by (simp add: l2)
  qed
qed

lemma drain_names_eq:
  "sorted_wrt (<) (map fst (sets m)) \<Longrightarrow> length (pending m) < n \<Longrightarrow>
   drain_names n pe m = (returned (pending m), logged (pending m), m\<lparr>cur := None\<rparr>)"
proof (induction n arbitrary: m)
  case 0
  then show ?case by simp
next
  case (Suc n)
  let ?w = "\<lambda>e::string \<times> testset. wrapper (snd e) \<noteq> []"
  show ?case
  proof (cases "dropWhile ?w (pending m)")
    case Nil
    then have "\<forall>e\<in>set (pending m). ?w e"
      by (simp add: dropWhile_eq_Nil_conv)
    then have "returned (pending m) = []"
      by (auto simp add: returned_def filter_empty_conv)
    moreover have "get_test_names pe m = (([], logged (pending m)), m\<lparr>cur := None\<rparr>)"
      unfolding get_test_names_eq Nil by simp
    ultimately show ?thesis by simp
  next
    case (Cons e es)
    let ?m' = "m\<lparr>cur := Some \<lparr>iter_it = it_begin es, iter_setname = fst e\<rparr>\<rparr>"
    obtain xs where xs: "sets m = xs @ pending m" using pending_suffix by blast
    have pm: "pending m = takeWhile ?w (pending m) @ e # es"
      using takeWhile_dropWhile_id [of ?w "pending m", unfolded Cons] by (rule sym)
    have s: "sets m = (xs @ takeWhile ?w (pending m) @ [e]) @ es"
      by (subst xs, subst pm) simp
    have "it_rest ((xs @ takeWhile ?w (pending m) @ [e]) @ es) (it_begin es) = es"
      using Suc.prems(1) unfolding s by (rule it_rest_begin)
    then have p': "pending ?m' = es"
      unfolding s [symmetric] by (simp add: pending_def)
    have "length (pending m) = length (takeWhile ?w (pending m)) + Suc (length es)"
      by (subst pm) simp
    then have "length es < n" using Suc.prems(2) by simp
    then have d: "drain_names n pe ?m' = (returned es, logged es, m\<lparr>cur := None\<rparr>)"
      using Suc.IH [of ?m'] Suc.prems(1) p' by simp
    have we: "wrapper (snd e) = []"
      using iffD1 [OF dropWhile_eq_Cons_conv Cons] by blast
    have tw: "\<forall>x\<in>set (takeWhile ?w (pending m)). ?w x"
      by (auto dest: set_takeWhileD)
    have r: "returned (pending m) = (fst e, test_names (snd e)) # returned es"
      by (subst pm) (use we tw in \<open>simp add: returned_def filter_empty_conv\<close>)
    have lg: "logged (pending m) = logged (takeWhile ?w (pending m)) @ logged es"
      by (subst pm) (use we in \<open>simp add: logged_def\<close>)
    have "get_test_names pe m = ((test_names (snd e), logged (takeWhile ?w (pending m))), ?m')"
      unfolding get_test_names_eq Cons by simp
    then show ?thesis
      using d r lg by simp
  qed
qed

section \<open>Ordinals\<close>

lemma keys_om_put: "fst ` set (om_put k v m) = insert k (fst ` set m)"
  using dom_map_of_conv_image_fst [of "om_put k v m"] dom_map_of_conv_image_fst [of m] by simp

lemma sorted_om_put:
  "sorted_wrt (<) (map fst m) \<Longrightarrow> sorted_wrt (<) (map fst (om_put k v m))"
proof (induction m)
  case Nil
  then show ?case by simp
next
  case (Cons e m)
  have "fst ` set (om_put k v m) = insert k (fst ` set m)"
    by (rule keys_om_put)
  then have "\<forall>x\<in>set (om_put k v m). fst x = k \<or> (\<exists>y\<in>set m. fst x = fst y)"
    by auto
  with Cons show ?case
    by (cases e) fastforce
qed

lemma sorted_om_index:
  "sorted_wrt (<) (map fst m) \<Longrightarrow> sorted_wrt (<) (map fst (snd (om_index k d m)))"
  by (simp add: om_index_def sorted_om_put split: option.splits)

lemma same_ordinals_refl: "same_ordinals m m"
  by (simp add: same_ordinals_def)

lemma same_ordinals_trans: "same_ordinals m m1 \<Longrightarrow> same_ordinals m1 m2 \<Longrightarrow> same_ordinals m m2"
  by (simp add: same_ordinals_def)

lemma same_ordinals_touch: "same_ordinals m (touch_test s x m)"
  by (simp add: same_ordinals_def touch_test_eq sorted_om_put)

lemma find_test_loop_same_ordinals:
  assumes "find_test_loop s t pos pctx m = Some y"
  shows "same_ordinals m (snd (snd y))"
proof (rule find_test_loop.raw_induct
    [where P = "\<lambda>s t pos pctx m y. same_ordinals m (snd (snd y))", OF _ assms], goal_cases)
  case (1 f s t pos pctx m y)
  show ?case
  proof (cases "lookup_test s (substr t 0 pos) m")
    case None
    then have "f s t (find_last_of (substr t 0 pos) (CHR ''_'')) (substr t (pos + 1) npos)
        (touch_test s (substr t 0 pos) m) = Some y"
      using 1(2) by (simp add: sets_tests_index_eq touch_test_eq Let_def)
    from 1(1) [OF this] show ?thesis
      using same_ordinals_touch same_ordinals_trans by blast
  next
    case (Some k)
    then have "snd (snd y) = touch_test s (substr t 0 pos) m"
      using 1(2) by (auto simp add: sets_tests_index_eq touch_test_eq Let_def)
    then show ?thesis by (simp add: same_ordinals_touch)
  qed
qed

lemma find_test_same_ordinals:
  assumes "find_test s t pctx m = Some (k, c, m')"
  shows "same_ordinals m m'"
proof (cases "lookup_test s t m = None \<and> handle_to_ctxvec m \<noteq> []")
  case True
  then have "find_test_loop s t (find_last_of t (CHR ''_'')) pctx (touch_test s t m) = Some (k, c, m')"
    using assms by (simp add: find_test_eq)
  from find_test_loop_same_ordinals [OF this] show ?thesis
    using same_ordinals_touch same_ordinals_trans by fastforce
next
  case False
  then have "m' = touch_test s t m"
    using assms by (auto simp add: find_test_eq split: option.splits if_splits)
  then show ?thesis by (simp add: same_ordinals_touch)
qed

lemma find_add_set_effect:
  "(s \<in> kernelsets m \<longrightarrow> same_ordinals m (find_add_set s m))
   \<and> (s \<notin> kernelsets m \<longrightarrow> registers s m (find_add_set s m))"
  by (simp add: find_add_set_eq same_ordinals_def registers_def sorted_om_put sorted_om_index)

lemma same_ordinals_mgr_test_names:
  "same_ordinals m m' \<Longrightarrow> same_ordinals m (m'\<lparr>mgr_test_names := x\<rparr>)"
  "registers s m m' \<Longrightarrow> registers s m (m'\<lparr>mgr_test_names := x\<rparr>)"
  by (simp_all add: same_ordinals_def registers_def)

lemma add_test_effect:
  "(s \<in> kernelsets m \<longrightarrow> same_ordinals m (add_test s t hid m))
   \<and> (s \<notin> kernelsets m \<longrightarrow> registers s m (add_test s t hid m))"
  by (subst (1 2) add_test_flat)
     (auto simp add: same_ordinals_def registers_def sorted_om_put the_set_def)

lemma add_wrapper_effect: "same_ordinals m (add_wrapper s t cb m)"
  by (auto simp add: add_wrapper_eq same_ordinals_def sorted_om_put the_set_def split: option.splits)

lemma step_effect:
  "step m m' \<Longrightarrow> same_ordinals m m' \<or> (\<exists>s. registers s m m')"
proof (induction rule: step.induct)
  case (step_find_add_set m s)
  then show ?case using find_add_set_effect by blast
next
  case (step_find_add_test m s t)
  then show ?case
    using find_add_set_effect [of s m] same_ordinals_mgr_test_names
    unfolding find_add_test_def Let_def by blast
next
  case (step_add_test m s t hid)
  then show ?case using add_test_effect by blast
next
  case (step_add_wrapper m s t cb)
  then show ?case by (simp add: add_wrapper_effect)
next
  case (step_add_cset m hid ctxs)
  then show ?case by (simp add: add_cset_def same_ordinals_def)
next
  case (step_add_configurable_context m ctx type_id hid cfg_stat)
  then show ?case
    by (simp add: add_configurable_context_def same_ordinals_def split: prod.splits)
next
  case (step_find_test s t pctx m k c m')
  then show ?case by (simp add: find_test_same_ordinals)
next
  case (step_get_test_names m past_end)
  then show ?case
    by (simp add: get_test_names_eq same_ordinals_def split: list.splits)
qed

lemma ordinals_ok_same: "ordinals_ok m \<Longrightarrow> same_ordinals m m' \<Longrightarrow> ordinals_ok m'"
  by (simp add: ordinals_ok_def same_ordinals_def)

lemma ordinals_ok_registers:
  assumes "ordinals_ok m" and "registers s m m'"
  shows "ordinals_ok m'"
proof -
  have s: "s \<notin> set (set_names m)"
    using assms by (simp add: ordinals_ok_def registers_def)
  have "setnum (the_set ((set_names m @ [s]) ! i) m') = of_nat i" if "i < Suc (length (set_names m))" for i
  proof (cases "i < length (set_names m)")
    case True
    then have "set_names m ! i \<noteq> s" using s by (metis nth_mem)
    then show ?thesis
      using True assms by (simp add: ordinals_ok_def registers_def nth_append)
  next
    case False
    then have "i = length (set_names m)" using that by simp
    then show ?thesis
      using assms by (simp add: ordinals_ok_def registers_def)
  qed
  then show ?thesis
    using assms s by (simp add: ordinals_ok_def registers_def)
qed

lemma reachable_ordinals_ok: "reachable m \<Longrightarrow> ordinals_ok m"
proof (induction rule: reachable.induct)
  case reachable_new
  then show ?case
    by (simp add: ordinals_ok_def kmgr_new_def the_set_def testset_new_def)
next
  case (reachable_step m m')
  then show ?case
    using step_effect ordinals_ok_same ordinals_ok_registers by blast
qed

lemma ordinals_distinct:
  assumes "ordinals_ok m" and "length (set_names m) \<le> 2 ^ 32"
    and "s \<in> kernelsets m" and "s' \<in> kernelsets m" and "s \<noteq> s'"
  shows "setnum (the_set s m) \<noteq> setnum (the_set s' m)"
proof -
  obtain i j where i: "i < length (set_names m)" "set_names m ! i = s"
      and j: "j < length (set_names m)" "set_names m ! j = s'"
    using assms by (metis in_set_conv_nth ordinals_ok_def)
  have ij: "i \<noteq> j" using i j assms(5) by auto
  have "setnum (the_set s m) = of_nat i" "setnum (the_set s' m) = of_nat j"
    using assms(1) i j by (auto simp add: ordinals_ok_def)
  moreover have "(of_nat i :: 32 word) \<noteq> of_nat j"
  proof
    assume "(of_nat i :: 32 word) = of_nat j"
    then have "unat (of_nat i :: 32 word) = unat (of_nat j :: 32 word)" by simp
    then have "i mod 2 ^ 32 = j mod 2 ^ 32" by (simp add: unat_of_nat)
    moreover have "i < 2 ^ 32" "j < 2 ^ 32" using i j assms(2) by simp_all
    ultimately show False using ij by simp
  qed
  ultimately show ?thesis by simp
qed

text \<open>
  C6, as the code has it: after every operation on a registry that operations have
  built, the ordinals are in order; a set that \<open>find_add_set\<close> had registered keeps
  its ordinal; a set that the operation registers gets the number of sets registered
  before it; two registered sets with different names have different ordinals as long as
  no more than \<open>2^32\<close> sets are registered; and a set that only
  \<open>add_wrapper\<close> or \<open>find_test\<close> has referred to has the ordinal 0 of a new
  \<open>testset\<close>.
\<close>

theorem registry_ordinals:
  assumes "reachable m" and "step m m'"
  shows "ordinals_ok m'
    \<and> (\<forall>s\<in>kernelsets m. s \<in> kernelsets m' \<and> setnum (the_set s m') = setnum (the_set s m))
    \<and> (\<forall>s\<in>kernelsets m' - kernelsets m. setnum (the_set s m') = of_nat (length (set_names m)))
    \<and> (length (set_names m') \<le> 2 ^ 32 \<longrightarrow>
         (\<forall>s\<in>kernelsets m'. \<forall>s'\<in>kernelsets m'. s \<noteq> s'
             \<longrightarrow> setnum (the_set s m') \<noteq> setnum (the_set s' m')))
    \<and> (\<forall>s. s \<notin> kernelsets m' \<longrightarrow> setnum (the_set s m') = 0)"
proof -
  have ok: "ordinals_ok m" using assms(1) by (rule reachable_ordinals_ok)
  have ok': "ordinals_ok m'"
    using assms by (blast intro: reachable_ordinals_ok reachable_step)
  have e: "same_ordinals m m' \<or> (\<exists>s. registers s m m')"
    using assms(2) by (rule step_effect)
  have 1: "\<forall>s\<in>kernelsets m. s \<in> kernelsets m' \<and> setnum (the_set s m') = setnum (the_set s m)"
    using e by (auto simp add: same_ordinals_def registers_def)
  have 2: "\<forall>s\<in>kernelsets m' - kernelsets m. setnum (the_set s m') = of_nat (length (set_names m))"
    using e ok by (auto simp add: same_ordinals_def registers_def ordinals_ok_def)
  have 3: "length (set_names m') \<le> 2 ^ 32 \<longrightarrow>
         (\<forall>s\<in>kernelsets m'. \<forall>s'\<in>kernelsets m'. s \<noteq> s'
             \<longrightarrow> setnum (the_set s m') \<noteq> setnum (the_set s' m'))"
    using ordinals_distinct [OF ok'] by blast
  have 4: "\<forall>s. s \<notin> kernelsets m' \<longrightarrow> setnum (the_set s m') = 0"
    using ok' by (simp add: ordinals_ok_def)
  show ?thesis using ok' 1 2 3 4 by blast
qed


lemmas eval_defs = add_test_flat add_wrapper_eq find_add_set_eq kmgr_new_def lookup_test_def
       the_set_def testset_new_def om_index_def om_erase_def new_test_def KernelTest_init_def

lemma reachable_sorted: "reachable m \<Longrightarrow> sorted_wrt (<) (map fst (sets m))"
  using reachable_ordinals_ok by (simp add: ordinals_ok_def)

lemma sorted_keys_distinct: "sorted_wrt (<) (map fst es) \<Longrightarrow> distinct (map fst (returned es))"
proof -
  assume "sorted_wrt (<) (map fst es)"
  then have "distinct (map fst es)"
    by (simp add: strict_sorted_iff)
  then have "distinct (map fst (filter (\<lambda>e. wrapper (snd e) = []) es))"
    by (simp add: distinct_map_filter)
  moreover have "map fst (returned es) = map fst (filter (\<lambda>e. wrapper (snd e) = []) es)"
    by (simp add: returned_def comp_def)
  ultimately show ?thesis by simp
qed

lemma exhausted_empty:
  "cur (snd (get_test_names pe m)) = None \<Longrightarrow> get_test_names pe m = (([], logged (pending m)), m\<lparr>cur := None\<rparr>)"
proof (cases "dropWhile (\<lambda>e. wrapper (snd e) \<noteq> []) (pending m)")
  case Nil
  show ?thesis unfolding get_test_names_eq Nil by simp
next
  case (Cons e es)
  assume "cur (snd (get_test_names pe m)) = None"
  then show ?thesis unfolding get_test_names_eq Cons by simp
qed

text \<open>
  C4, as the code has it: from a fresh cursor, successive calls of \<open>get_test_names\<close>
  return the name list of every set whose \<open>wrapper\<close> map is empty, each once and in
  the key order of \<open>sets\<close>; every set whose \<open>wrapper\<close> map is not empty is
  skipped, and the skip is logged for those of them whose name list is empty; after the
  last set the call returns the empty list and deletes the cursor. A call that deletes
  the cursor returns the empty list.
\<close>

theorem get_test_names_enumeration:
  assumes "reachable m" and "cur m = None" and "length (sets m) < n"
  shows "drain_names n pe m = (returned (sets m), logged (sets m), m)
    \<and> distinct (map fst (returned (sets m)))
    \<and> (cur (snd (get_test_names pe m1)) = None
        \<longrightarrow> get_test_names pe m1 = (([], logged (pending m1)), m1\<lparr>cur := None\<rparr>))"
proof -
  have p: "pending m = sets m" using assms(2) by (simp add: pending_def)
  have "m\<lparr>cur := None\<rparr> = m" using assms(2) by simp
  then have "drain_names n pe m = (returned (sets m), logged (sets m), m)"
    using drain_names_eq [of m n pe] reachable_sorted [OF assms(1)] assms(3) p by simp
  then show ?thesis
    using sorted_keys_distinct [OF reachable_sorted [OF assms(1)]] exhausted_empty by blast
qed

text \<open>
  C5, as the code has it: the sets come in the key order of the map \<open>sets\<close>, which
  is the ascending lexicographic order of the set names, whatever their ordinals.
\<close>

theorem enumeration_order:
  assumes "reachable m" and "cur m = None" and "length (sets m) < n"
  shows "map fst (fst (drain_names n pe m)) = map fst (filter (\<lambda>e. wrapper (snd e) = []) (sets m))
    \<and> sorted_wrt (<) (map fst (fst (drain_names n pe m)))"
proof -
  have p: "pending m = sets m" using assms(2) by (simp add: pending_def)
  have d: "fst (drain_names n pe m) = returned (sets m)"
    using drain_names_eq [of m n pe] reachable_sorted [OF assms(1)] assms(3) p by simp
  have m: "map fst (returned (sets m)) = map fst (filter (\<lambda>e. wrapper (snd e) = []) (sets m))"
    by (simp add: returned_def comp_def)
  have "sorted_wrt (\<lambda>x y. fst x < fst y) (sets m)"
    using reachable_sorted [OF assms(1)] by (simp only: sorted_wrt_map)
  then have "sorted_wrt (\<lambda>x y. fst x < fst y) (filter (\<lambda>e. wrapper (snd e) = []) (sets m))"
    by (rule sorted_wrt_filter)
  then have "sorted_wrt (<) (map fst (filter (\<lambda>e. wrapper (snd e) = []) (sets m)))"
    by (simp only: sorted_wrt_map)
  then show ?thesis by (simp add: d m)
qed

lemma reversed_reachable: "reachable reversed_registry"
  unfolding reversed_registry_def
  by (intro reachable_step [OF _ step_add_test] reachable_new)

lemma reversed_eval:
  "cur reversed_registry = None" "length (sets reversed_registry) = 2"
  "returned (sets reversed_registry) = [(''a'', [''t2'']), (''b'', [''t1''])]"
  "logged (sets reversed_registry) = []"
  "setnum (the_set ''a'' reversed_registry) = 1" "setnum (the_set ''b'' reversed_registry) = 0"
  "set_names reversed_registry = [''b'', ''a'']"
  by (simp_all add: reversed_registry_def returned_def logged_def eval_defs)

text \<open>The set \<open>b\<close> is registered first and \<open>a\<close> second; \<open>a\<close> is returned
  first.\<close>

theorem enumeration_order_witness:
  "reachable reversed_registry \<and> cur reversed_registry = None \<and> length (sets reversed_registry) < 3
   \<and> map fst (fst (drain_names 3 no_node reversed_registry)) = [''a'', ''b'']"
proof -
  have "map fst (returned (sets reversed_registry)) = [''a'', ''b'']"
    by (simp add: reversed_eval)
  moreover have "map fst (returned es) = map fst (filter (\<lambda>e. wrapper (snd e) = []) es)" for es
    by (simp add: returned_def comp_def)
  ultimately have "map fst (filter (\<lambda>e. wrapper (snd e) = []) (sets reversed_registry)) = [''a'', ''b'']"
    by simp
  then show ?thesis
    using enumeration_order [OF reversed_reachable reversed_eval(1), of 3 no_node] reversed_reachable
    by (simp add: reversed_eval)
qed

text \<open>
  C5 as the claim words it fails on that registry: \<open>b\<close> has ordinal 0 and \<open>a\<close>
  ordinal 1, and the enumeration returns \<open>a\<close> before \<open>b\<close>.
\<close>

theorem enumeration_by_name_not_ordinal:
  "setnum (the_set ''b'' reversed_registry) = 0 \<and> setnum (the_set ''a'' reversed_registry) = 1
   \<and> set_names reversed_registry = [''b'', ''a'']
   \<and> fst (drain_names 3 no_node reversed_registry) = [(''a'', [''t2'']), (''b'', [''t1''])]"
  using drain_names_eq [of reversed_registry 3 no_node] reachable_sorted [OF reversed_reachable]
  by (simp add: pending_def reversed_eval)

lemma enum_reachable: "reachable enum_registry"
  unfolding enum_registry_def
  by (intro reachable_step [OF _ step_add_test] reachable_step [OF _ step_add_wrapper] reachable_new)

lemma enum_eval:
  "cur enum_registry = None" "length (sets enum_registry) = 3"
  "returned (sets enum_registry) = [(''k'', [''t''])]"
  "logged (sets enum_registry) = [''c'']"
  by (simp_all add: enum_registry_def returned_def logged_def eval_defs)

text \<open>Four sets' worth of calls on a registry with a set \<open>k\<close> without pending
  wrappers, a set \<open>c\<close> with a pending wrapper and no names, and a set \<open>s\<close>
  with a pending wrapper and a name.\<close>

theorem get_test_names_enumeration_witness:
  "reachable enum_registry \<and> cur enum_registry = None \<and> length (sets enum_registry) < 4
   \<and> drain_names 4 no_node enum_registry = ([(''k'', [''t''])], [''c''], enum_registry)"
  using get_test_names_enumeration [OF enum_reachable enum_eval(1), of 4 no_node] enum_reachable
  by (simp add: enum_eval)

lemma mixed_eval:
  "cur mixed_registry = None"
  "test_names (the_set ''s'' mixed_registry) = [''a'']"
  "wrapper (the_set ''s'' mixed_registry) = [(''b'', Some 1)]"
  "map fst (sets mixed_registry) = [''s'']"
  "dropWhile (\<lambda>e. wrapper (snd e) \<noteq> []) (sets mixed_registry) = []"
  "logged (sets mixed_registry) = []"
  by (simp_all add: mixed_registry_def logged_def eval_defs)

lemma empty_set_eval:
  "cur empty_set_registry = None"
  "map (\<lambda>e. (fst e, test_names (snd e), wrapper (snd e))) (sets empty_set_registry)
     = [(''e'', [], []), (''z'', [''t''], [])]"
  by (simp_all add: empty_set_registry_def eval_defs)

text \<open>
  C4 as the claim words it fails twice. The set \<open>s\<close> has the kernel name \<open>a\<close>
  and a pending wrapper for \<open>b\<close>: the first call skips it without a log line and
  reports exhaustion, so its names are never returned. The set \<open>e\<close> has no names
  and no pending wrapper: the call returns its empty list with the cursor alive, and the
  next call returns the names of \<open>z\<close>.
\<close>

theorem get_test_names_skips_and_empty:
  "test_names (the_set ''s'' mixed_registry) = [''a'']
   \<and> map fst (sets mixed_registry) = [''s'']
   \<and> get_test_names no_node mixed_registry = (([], []), mixed_registry)
   \<and> fst (get_test_names no_node empty_set_registry) = ([], [])
   \<and> get_current_setname (snd (get_test_names no_node empty_set_registry)) = Some ''e''
   \<and> fst (get_test_names no_node (snd (get_test_names no_node empty_set_registry))) = ([''t''], [])"
proof -
  have "mixed_registry\<lparr>cur := None\<rparr> = mixed_registry"
    using mixed_eval(1) by simp
  then have a: "get_test_names no_node mixed_registry = (([], []), mixed_registry)"
    by (simp add: get_test_names_eq pending_def mixed_eval)
  obtain e z where ez: "sets empty_set_registry = [(''e'', e), (''z'', z)]"
      "test_names e = []" "wrapper e = []" "test_names z = [''t'']" "wrapper z = []"
    using empty_set_eval(2) by (auto simp add: map_eq_Cons_conv)
  let ?m = "empty_set_registry\<lparr>cur := Some \<lparr>iter_it = It_at ''z'', iter_setname = ''e''\<rparr>\<rparr>"
  have b: "get_test_names no_node empty_set_registry = (([], []), ?m)"
    by (simp add: get_test_names_eq pending_def empty_set_eval(1) ez logged_def it_begin_def)
  have c: "fst (get_test_names no_node ?m) = ([''t''], [])"
    by (simp add: get_test_names_eq pending_def ez logged_def it_begin_def it_rest_def)
  show ?thesis
    using a b c by (simp add: mixed_eval get_current_setname_def)
qed

lemma wrapper_first_reachable: "reachable wrapper_first_registry"
  unfolding wrapper_first_registry_def
  by (intro reachable_step [OF _ step_find_add_set] reachable_step [OF _ step_add_wrapper] reachable_new)

lemma wrapper_first_eval:
  "kernelsets wrapper_first_registry = {''B''}" "set_names wrapper_first_registry = [''B'']"
  "map fst (sets wrapper_first_registry) = [''A'', ''B'']"
  "setnum (the_set ''A'' wrapper_first_registry) = 0"
  "setnum (the_set ''B'' wrapper_first_registry) = 0"
  "setnum (the_set ''A'' (find_add_set ''A'' wrapper_first_registry)) = 1"
  "kernelsets (add_test ''A'' ''t'' 0 wrapper_first_registry) = {''A'', ''B''}"
  "set_names (add_test ''A'' ''t'' 0 wrapper_first_registry) = [''B'', ''A'']"
  by (simp_all add: wrapper_first_registry_def eval_defs)

text \<open>The set \<open>A\<close> is first referred to by \<open>add_wrapper\<close>, then \<open>B\<close> is
  registered, then the kernel names a test of \<open>A\<close>.\<close>

theorem registry_ordinals_witness:
  "reachable wrapper_first_registry
   \<and> step wrapper_first_registry (add_test ''A'' ''t'' 0 wrapper_first_registry)
   \<and> ordinals_ok (add_test ''A'' ''t'' 0 wrapper_first_registry)
   \<and> setnum (the_set ''B'' (add_test ''A'' ''t'' 0 wrapper_first_registry)) = 0
   \<and> setnum (the_set ''A'' (add_test ''A'' ''t'' 0 wrapper_first_registry)) = 1
   \<and> setnum (the_set ''A'' (add_test ''A'' ''t'' 0 wrapper_first_registry))
        \<noteq> setnum (the_set ''B'' (add_test ''A'' ''t'' 0 wrapper_first_registry))"
  using registry_ordinals [OF wrapper_first_reachable step_add_test, of "''A''" "''t''" 0]
    wrapper_first_reachable step_add_test [of wrapper_first_registry "''A''" "''t''" 0]
  by (simp add: wrapper_first_eval)

text \<open>
  C6 as the claim words it fails on that registry: before the kernel names \<open>A\<close>, the
  sets \<open>A\<close> and \<open>B\<close> both hold the ordinal 0, and \<open>A\<close>, first referred to
  by \<open>add_wrapper\<close>, is given its ordinal 1 only by a later \<open>find_add_set\<close>.
\<close>

theorem ordinal_of_wrapper_only_set:
  "map fst (sets wrapper_first_registry) = [''A'', ''B'']
   \<and> setnum (the_set ''A'' wrapper_first_registry) = 0
   \<and> setnum (the_set ''B'' wrapper_first_registry) = 0
   \<and> setnum (the_set ''A'' (find_add_set ''A'' wrapper_first_registry)) = 1"
  by (simp add: wrapper_first_eval)

end
